theory Spec2Isabelle
  imports Main "HOL-Library.Sublist"
begin

section \<open>Text primitives\<close>

text \<open>
  The source is Python and works on \<open>str\<close> values. A \<^typ>\<open>char\<close> stands for one code
  point, so the development covers texts whose code points lie below 256. On that range
  the interpreter's tables are the ones written out here: \<open>str.splitlines\<close> breaks at
  the eight characters of \<open>is_linebreak\<close> (and at CR LF taken as one break), the regular
  expression class \<open>\s\<close> is the twelve characters of \<open>is_space\<close>, and \<open>\d\<close> is the ten
  ASCII digits.
\<close>

abbreviation LF :: char where "LF \<equiv> CHR 0x0A"
abbreviation CR :: char where "CR \<equiv> CHR 0x0D"

definition is_linebreak :: "char \<Rightarrow> bool" where
  "is_linebreak c \<longleftrightarrow>
     c \<in> set [CHR 0x0A, CHR 0x0B, CHR 0x0C, CHR 0x0D, CHR 0x1C, CHR 0x1D, CHR 0x1E, CHR 0x85]"

definition is_space :: "char \<Rightarrow> bool" where
  "is_space c \<longleftrightarrow>
     c \<in> set [CHR 0x09, CHR 0x0A, CHR 0x0B, CHR 0x0C, CHR 0x0D, CHR 0x1C, CHR 0x1D, CHR 0x1E,
              CHR 0x1F, CHR 0x20, CHR 0x85, CHR 0xA0]"

definition is_digit :: "char \<Rightarrow> bool" where
  "is_digit c \<longleftrightarrow> c \<in> set ''0123456789''"

text \<open>
  \<open>str.splitlines()\<close>: the text is cut at every line break, the breaks are not kept, and
  a break at the very end opens no further (empty) line. A character that is no break
  joins the first line of what follows it.
\<close>

fun splitlines :: "string \<Rightarrow> string list" where
  "splitlines [] = []"
| "splitlines (c # cs) =
     (if is_linebreak c
      then [] # splitlines (if c = CR \<and> cs \<noteq> [] \<and> hd cs = LF then tl cs else cs)
      else (case splitlines cs of [] \<Rightarrow> [[c]] | l # ls \<Rightarrow> (c # l) # ls))"

text \<open>\<open>"\n".join(xs)\<close>.\<close>

fun join_nl :: "string list \<Rightarrow> string" where
  "join_nl [] = []"
| "join_nl [x] = x"
| "join_nl (x # y # ys) = x @ LF # join_nl (y # ys)"

section \<open>The heading-line grammar\<close>

text \<open>
  \<open>re.compile(r"^(\*+)\s+(.*)$").match(line)\<close>, giving groups 1 and 2. The star run and
  the whitespace run are both taken as long as possible: a star is no whitespace and
  giving back whitespace only moves it into the rest, so no shorter run can succeed where
  the longest fails. The dot matches everything except LF, and the end anchor holds at
  the end of the string or just before a final LF: the rest after the whitespace must
  hold no LF other than a last one, which is then left out of group 2.
\<close>

definition heading_match :: "string \<Rightarrow> (string \<times> string) option" where
  "heading_match line =
     (let stars = takeWhile (\<lambda>c. c = CHR ''*'') line;
          after = dropWhile (\<lambda>c. c = CHR ''*'') line;
          ws = takeWhile is_space after;
          r = dropWhile is_space after
      in if stars \<noteq> [] \<and> ws \<noteq> [] \<and> LF \<notin> set (butlast r)
         then Some (stars, if r \<noteq> [] \<and> last r = LF then butlast r else r)
         else None)"

text \<open>
  \<open>re.match(r"(TODO|DONE|IN-PROGRESS)\s+(.*)", title)\<close>, giving groups 1 and 2: one of
  the three tokens at the start, at least one whitespace character after it, and then
  everything up to the first LF (or the end).
\<close>

definition todo_tokens :: "string list" where
  "todo_tokens = [''TODO'', ''DONE'', ''IN-PROGRESS'']"

fun todo_match_with :: "string list \<Rightarrow> string \<Rightarrow> (string \<times> string) option" where
  "todo_match_with [] t = None"
| "todo_match_with (k # ks) t =
     (if prefix k t \<and> takeWhile is_space (drop (length k) t) \<noteq> []
      then Some (k, takeWhile (\<lambda>c. c \<noteq> LF) (dropWhile is_space (drop (length k) t)))
      else todo_match_with ks t)"

definition todo_match :: "string \<Rightarrow> (string \<times> string) option" where
  "todo_match t = todo_match_with todo_tokens t"

section \<open>Headings and the parser\<close>

text \<open>
  A heading is the dictionary built in \<open>extract_headings\<close>. The key \<open>content\<close> is set
  when the heading is closed; until then the model holds the empty string there, which
  nothing reads.
\<close>

record heading =
  level :: nat
  title :: string
  raw :: string
  todo_state :: "string option"
  content :: string

text \<open>The new heading entry made from a heading line and its two groups.\<close>

definition new_heading :: "string \<Rightarrow> string \<Rightarrow> string \<Rightarrow> heading" where
  "new_heading line stars free =
     (case todo_match free of
        Some (k, rest) \<Rightarrow>
          \<lparr>level = length stars, title = rest, raw = line, todo_state = Some k, content = []\<rparr>
      | None \<Rightarrow>
          \<lparr>level = length stars, title = free, raw = line, todo_state = None, content = []\<rparr>)"

text \<open>The three loop variables of \<open>extract_headings\<close>.\<close>

record parser_state =
  headings :: "heading list"
  current_heading :: "heading option"
  heading_content :: "string list"

definition parser_init :: parser_state where
  "parser_init = \<lparr>headings = [], current_heading = None, heading_content = []\<rparr>"

text \<open>Saving the open heading with the content collected for it.\<close>

definition close_heading :: "heading \<Rightarrow> string list \<Rightarrow> heading" where
  "close_heading h buf = h\<lparr>content := join_nl buf\<rparr>"

text \<open>One turn of the loop over the lines.\<close>

definition parser_step :: "parser_state \<Rightarrow> string \<Rightarrow> parser_state" where
  "parser_step st line =
     (case heading_match line of
        Some (stars, free) \<Rightarrow>
          (case current_heading st of
             Some cur \<Rightarrow>
               \<lparr>headings = headings st @ [close_heading cur (heading_content st)],
                current_heading = Some (new_heading line stars free),
                heading_content = []\<rparr>
           | None \<Rightarrow> st\<lparr>current_heading := Some (new_heading line stars free)\<rparr>)
      | None \<Rightarrow>
          (case current_heading st of
             Some cur \<Rightarrow> st\<lparr>heading_content := heading_content st @ [line]\<rparr>
           | None \<Rightarrow> st))"

text \<open>After the loop the last heading, if one is open, is saved as well.\<close>

definition parser_finish :: "parser_state \<Rightarrow> heading list" where
  "parser_finish st =
     (case current_heading st of
        Some cur \<Rightarrow> headings st @ [close_heading cur (heading_content st)]
      | None \<Rightarrow> headings st)"

definition parse_lines :: "string list \<Rightarrow> heading list" where
  "parse_lines ls = parser_finish (foldl parser_step parser_init ls)"

definition extract_headings :: "string \<Rightarrow> heading list" where
  "extract_headings text = parse_lines (splitlines text)"

section \<open>Reading files and locating a heading\<close>

text \<open>
  The values \<open>{"error": message}\<close> the tools return. Each constructor stands for one
  message of the source: \<open>ReadError c\<close> carries the text \<open>c\<close> itself,
  \<open>HeadingNotFound t p\<close> is "Heading 't' not found in p", \<open>HeadingLineNotFound t p\<close> is
  "Heading line not found for 't' in p" and \<open>FileDoesNotExist p\<close> is
  "File p does not exist".
\<close>

datatype error =
    ReadError string
  | HeadingNotFound string string
  | HeadingLineNotFound string string
  | FileDoesNotExist string

text \<open>
  What opening and reading the file at a path does: \<open>Inr\<close> the text read, or \<open>Inl\<close> the
  text \<open>str(e)\<close> of the exception raised.
\<close>

type_synonym read_outcome = "string + string"
type_synonym file_reader = "string \<Rightarrow> read_outcome"

definition read_org_file :: "file_reader \<Rightarrow> string \<Rightarrow> string" where
  "read_org_file rd file_path =
     (case rd file_path of
        Inr text \<Rightarrow> text
      | Inl e \<Rightarrow> ''Error reading file: '' @ e)"

text \<open>\<open>Inl c\<close> is the one-element list \<open>[{"error": c}]\<close>, \<open>Inr hs\<close> the list of headings.\<close>

definition read_file_headings :: "file_reader \<Rightarrow> string \<Rightarrow> string + heading list" where
  "read_file_headings rd file_path =
     (let text = read_org_file rd file_path
      in if prefix ''Error:'' text then Inl text else Inr (extract_headings text))"

text \<open>The loop of \<open>read_heading\<close> over the headings.\<close>

fun find_heading :: "heading list \<Rightarrow> string \<Rightarrow> heading option" where
  "find_heading [] heading_title = None"
| "find_heading (h # hs) heading_title =
     (if title h = heading_title then Some h else find_heading hs heading_title)"

definition locate_heading :: "heading list \<Rightarrow> string \<Rightarrow> string \<Rightarrow> error + heading" where
  "locate_heading hs heading_title file_path =
     (case find_heading hs heading_title of
        Some h \<Rightarrow> Inr h
      | None \<Rightarrow> Inl (HeadingNotFound heading_title file_path))"

definition read_heading :: "file_reader \<Rightarrow> string \<Rightarrow> string \<Rightarrow> error + heading" where
  "read_heading rd file_path heading_title =
     (case read_file_headings rd file_path of
        Inl c \<Rightarrow> Inl (ReadError c)
      | Inr hs \<Rightarrow> locate_heading hs heading_title file_path)"

section \<open>Modifying a heading\<close>

text \<open>The first loop of \<open>modify_heading\<close>: the target heading and its index.\<close>

fun find_target :: "nat \<Rightarrow> heading list \<Rightarrow> string \<Rightarrow> (nat \<times> heading) option" where
  "find_target i [] heading_title = None"
| "find_target i (h # hs) heading_title =
     (if title h = heading_title then Some (i, h) else find_target (Suc i) hs heading_title)"

text \<open>
  The modified heading line: the stars of the target's level and a space, the todo state
  and a space when the state is neither \<open>None\<close> nor the empty string, then the title.
\<close>

definition build_heading_line :: "heading \<Rightarrow> string option \<Rightarrow> string option \<Rightarrow> string" where
  "build_heading_line target new_title new_todo_state =
     (let stars = replicate (level target) (CHR ''*'');
          todo = (case new_todo_state of Some s \<Rightarrow> Some s | None \<Rightarrow> todo_state target);
          heading_line = (case todo of
                            Some s \<Rightarrow> if s \<noteq> [] then stars @ '' '' @ s @ '' '' else stars @ '' ''
                          | None \<Rightarrow> stars @ '' '');
          t = (case new_title of Some s \<Rightarrow> s | None \<Rightarrow> title target)
      in heading_line @ t)"

text \<open>The test the second loop makes on a line.\<close>

definition line_selected :: "string \<Rightarrow> string \<Rightarrow> bool" where
  "line_selected heading_title line =
     (case heading_match line of
        None \<Rightarrow> False
      | Some (stars, free) \<Rightarrow>
          suffix heading_title free \<and>
          (free = heading_title \<or> prefix ''TODO '' free \<or> prefix ''DONE '' free))"

text \<open>The second loop: the index of the first selected line, counted from \<open>i\<close>.\<close>

fun find_line_number :: "nat \<Rightarrow> string list \<Rightarrow> string \<Rightarrow> nat option" where
  "find_line_number i [] heading_title = None"
| "find_line_number i (l # ls) heading_title =
     (if line_selected heading_title l then Some i
      else find_line_number (Suc i) ls heading_title)"

text \<open>
  The third loop: the index of the first heading line among the lines \<open>ls\<close>, which start
  at index \<open>i\<close>, or the index just after them.
\<close>

fun find_end_from :: "nat \<Rightarrow> string list \<Rightarrow> nat" where
  "find_end_from i [] = i"
| "find_end_from i (l # ls) =
     (if heading_match l \<noteq> None then i else find_end_from (Suc i) ls)"

definition find_end_line :: "string list \<Rightarrow> nat \<Rightarrow> nat" where
  "find_end_line lines line_number =
     find_end_from (line_number + 1) (drop (line_number + 1) lines)"

text \<open>\<open>modify_heading\<close> from the text read to the list \<open>new_lines\<close>.\<close>

definition modify_lines ::
  "string \<Rightarrow> string \<Rightarrow> string \<Rightarrow> string option \<Rightarrow> string option \<Rightarrow> string option
     \<Rightarrow> error + string list" where
  "modify_lines file_path text heading_title new_title new_content new_todo_state =
     (case find_target 0 (extract_headings text) heading_title of
        None \<Rightarrow> Inl (HeadingNotFound heading_title file_path)
      | Some (heading_index, target) \<Rightarrow>
          (let heading_line = build_heading_line target new_title new_todo_state;
               content_text = (case new_content of Some c \<Rightarrow> c | None \<Rightarrow> content target);
               lines = splitlines text
           in case find_line_number 0 lines heading_title of
                None \<Rightarrow> Inl (HeadingLineNotFound heading_title file_path)
              | Some line_number \<Rightarrow>
                  Inr (take line_number lines @ [heading_line] @ splitlines content_text
                       @ drop (find_end_line lines line_number) lines)))"

text \<open>The text written back to the file.\<close>

definition modify_text ::
  "string \<Rightarrow> string \<Rightarrow> string \<Rightarrow> string option \<Rightarrow> string option \<Rightarrow> string option
     \<Rightarrow> error + string" where
  "modify_text file_path text heading_title new_title new_content new_todo_state =
     (case modify_lines file_path text heading_title new_title new_content new_todo_state of
        Inl e \<Rightarrow> Inl e
      | Inr new_lines \<Rightarrow> Inr (join_nl new_lines))"

text \<open>
  The tool itself, on a store of the files that exist. It returns the error or the
  message of success, and the store after the call. Exceptions of the file system are
  outside this store.
\<close>

definition modify_heading ::
  "(string \<rightharpoonup> string) \<Rightarrow> string \<Rightarrow> string \<Rightarrow> string option \<Rightarrow> string option
     \<Rightarrow> string option \<Rightarrow> (error + string) \<times> (string \<rightharpoonup> string)" where
  "modify_heading files file_path heading_title new_title new_content new_todo_state =
     (case files file_path of
        None \<Rightarrow> (Inl (FileDoesNotExist file_path), files)
      | Some text \<Rightarrow>
          (case modify_text file_path text heading_title new_title new_content new_todo_state of
             Inl e \<Rightarrow> (Inl e, files)
           | Inr written \<Rightarrow>
               (Inr (''Modified heading '' @ [CHR 0x27] @ heading_title @ [CHR 0x27]
                     @ '' in '' @ file_path),
                files(file_path \<mapsto> written))))"

section \<open>Scheduled items\<close>

text \<open>\<open>\d{4}-\d{2}-\d{2}\<close> on exactly ten characters.\<close>

fun date_shape :: "string \<Rightarrow> bool" where
  "date_shape [y1, y2, y3, y4, s1, m1, m2, s2, d1, d2] \<longleftrightarrow>
     is_digit y1 \<and> is_digit y2 \<and> is_digit y3 \<and> is_digit y4 \<and> s1 = CHR ''-'' \<and>
     is_digit m1 \<and> is_digit m2 \<and> s2 = CHR ''-'' \<and> is_digit d1 \<and> is_digit d2"
| "date_shape _ \<longleftrightarrow> False"

text \<open>
  \<open>(?: [^>]*)?>\<close> after the date: either the closing bracket at once, or a space and then
  any characters other than the bracket (line breaks too) up to a closing bracket.
\<close>

fun closes :: "string \<Rightarrow> bool" where
  "closes [] \<longleftrightarrow> False"
| "closes (c # cs) \<longleftrightarrow> c = CHR ''>'' \<or> (c = CHR '' '' \<and> CHR ''>'' \<in> set cs)"

text \<open>
  The pattern \<open>KW\s*<(\d{4}-\d{2}-\d{2})(?: [^>]*)?>\<close> matched at the start of \<open>s\<close>, with
  \<open>KW\<close> one of \<open>SCHEDULED:\<close> and \<open>DEADLINE:\<close>; the result is group 1. The whitespace run is
  the longest one, because the opening bracket that must follow it is no whitespace.
\<close>

definition marker_match :: "string \<Rightarrow> string \<Rightarrow> string option" where
  "marker_match kw s =
     (if prefix kw s
      then (case dropWhile is_space (drop (length kw) s) of
              [] \<Rightarrow> None
            | c # r \<Rightarrow>
                if c = CHR ''<'' \<and> date_shape (take 10 r) \<and> closes (drop 10 r)
                then Some (take 10 r) else None)
      else None)"

text \<open>\<open>pattern.search(s)\<close>: the match at the leftmost position that has one.\<close>

fun marker_search :: "string \<Rightarrow> string \<Rightarrow> string option" where
  "marker_search kw [] = marker_match kw []"
| "marker_search kw (c # cs) =
     (case marker_match kw (c # cs) of
        Some d \<Rightarrow> Some d
      | None \<Rightarrow> marker_search kw cs)"

record scheduled_item =
  item_type :: string
  item_date :: string
  item_title :: string
  item_todo_state :: "string option"
  item_level :: nat

definition make_item :: "string \<Rightarrow> string \<Rightarrow> heading \<Rightarrow> scheduled_item" where
  "make_item ty d h =
     \<lparr>item_type = ty, item_date = d, item_title = title h,
      item_todo_state = todo_state h, item_level = level h\<rparr>"

text \<open>One turn of the loop of \<open>extract_scheduled_items\<close>, on the list collected so far.\<close>

definition scheduled_step :: "scheduled_item list \<Rightarrow> heading \<Rightarrow> scheduled_item list" where
  "scheduled_step scheduled_items h =
     (let scheduled_match = marker_search ''SCHEDULED:'' (content h);
          deadline_match = marker_search ''DEADLINE:'' (content h);
          items1 = (case scheduled_match of
                      Some d \<Rightarrow> scheduled_items @ [make_item ''scheduled'' d h]
                    | None \<Rightarrow> scheduled_items)
      in case deadline_match of
           Some d \<Rightarrow> items1 @ [make_item ''deadline'' d h]
         | None \<Rightarrow> items1)"

definition scheduled_items_of :: "heading list \<Rightarrow> scheduled_item list" where
  "scheduled_items_of hs = foldl scheduled_step [] hs"

definition extract_scheduled_items :: "string \<Rightarrow> scheduled_item list" where
  "extract_scheduled_items text = scheduled_items_of (extract_headings text)"

section \<open>Notions used in the statements\<close>

text \<open>
  The parser in closed form: every heading line gives one heading, whose content is the
  run of lines after it up to the next heading line. \<open>parse_lines_closed_form\<close> below
  shows that the loop computes exactly this.
\<close>

fun headings_from :: "string list \<Rightarrow> heading list" where
  "headings_from [] = []"
| "headings_from (l # ls) =
     (case heading_match l of
        Some (stars, free) \<Rightarrow>
          close_heading (new_heading l stars free) (takeWhile (\<lambda>x. heading_match x = None) ls)
            # headings_from ls
      | None \<Rightarrow> headings_from ls)"

text \<open>
  Putting a document together again from its headings, as the round-trip property of the
  specification describes it: each raw heading line, then its content on the lines after
  it when there is content, the blocks separated by line breaks.
\<close>

definition heading_block :: "heading \<Rightarrow> string" where
  "heading_block h = (if content h = [] then raw h else raw h @ LF # content h)"

definition reconstruct :: "heading list \<Rightarrow> string" where
  "reconstruct hs = join_nl (map heading_block hs)"

text \<open>No heading line is followed by a single empty line as its whole content.\<close>

fun no_blank_only_block :: "string list \<Rightarrow> bool" where
  "no_blank_only_block [] \<longleftrightarrow> True"
| "no_blank_only_block (l # ls) \<longleftrightarrow>
     (heading_match l = None \<or> takeWhile (\<lambda>x. heading_match x = None) ls \<noteq> [[]])
     \<and> no_blank_only_block ls"

text \<open>
  The selection criterion in the words of the specification: a heading line whose free
  text is the title, or is the title behind a leading "TODO " or "DONE ".
\<close>

definition criterion_line :: "string \<Rightarrow> string \<Rightarrow> bool" where
  "criterion_line heading_title line =
     (case heading_match line of
        None \<Rightarrow> False
      | Some (stars, free) \<Rightarrow>
          free = heading_title \<or> free = ''TODO '' @ heading_title
          \<or> free = ''DONE '' @ heading_title)"


text \<open>The number of line-break characters at the end of a text.\<close>

definition trailing_breaks :: "string \<Rightarrow> nat" where
  "trailing_breaks s = length (takeWhile is_linebreak (rev s))"

text \<open>The number of empty lines at the end of a list of lines.\<close>

definition trailing_empty_lines :: "string list \<Rightarrow> nat" where
  "trailing_empty_lines ls = length (takeWhile (\<lambda>l. l = []) (rev ls))"

text \<open>
  The grammar of a marker in the words of the specification. A date is four digits, a
  hyphen, two digits, a hyphen and two digits. A text starts with a marker of keyword
  \<open>kw\<close> and date \<open>d\<close> when it is the keyword, optional whitespace, an opening bracket, the
  date, then any text without a closing bracket, which is ignored, and the closing
  bracket.
\<close>

definition iso_date :: "string \<Rightarrow> bool" where
  "iso_date d \<longleftrightarrow>
     (\<exists>y m dd. d = y @ ''-'' @ m @ ''-'' @ dd \<and> length y = 4 \<and> length m = 2 \<and> length dd = 2 \<and>
        (\<forall>c\<in>set (y @ m @ dd). is_digit c))"

definition marker_text :: "string \<Rightarrow> string \<Rightarrow> string \<Rightarrow> bool" where
  "marker_text kw s d \<longleftrightarrow>
     (\<exists>ws inner rest.
        s = kw @ ws @ ''<'' @ d @ inner @ ''>'' @ rest \<and>
        (\<forall>c\<in>set ws. is_space c) \<and> iso_date d \<and> CHR ''>'' \<notin> set inner)"

definition contains_spec_marker :: "string \<Rightarrow> string \<Rightarrow> bool" where
  "contains_spec_marker kw s \<longleftrightarrow> (\<exists>i d. i \<le> length s \<and> marker_text kw (drop i s) d)"

text \<open>
  The narrower grammar: the ignored text between the date and the closing bracket is
  empty or starts with a space.
\<close>

definition spaced_marker_text :: "string \<Rightarrow> string \<Rightarrow> string \<Rightarrow> bool" where
  "spaced_marker_text kw s d \<longleftrightarrow>
     (\<exists>ws inner rest.
        s = kw @ ws @ ''<'' @ d @ inner @ ''>'' @ rest \<and>
        (\<forall>c\<in>set ws. is_space c) \<and> iso_date d \<and> CHR ''>'' \<notin> set inner \<and>
        (inner = [] \<or> hd inner = CHR '' ''))"

text \<open>
  A marker of the narrower grammar starts at position \<open>i\<close> of \<open>s\<close> and carries the date
  \<open>d\<close>; it is the first one when no such marker starts before it.
\<close>

definition marker_at :: "string \<Rightarrow> string \<Rightarrow> nat \<Rightarrow> string \<Rightarrow> bool" where
  "marker_at kw s i d \<longleftrightarrow> i \<le> length s \<and> spaced_marker_text kw (drop i s) d"

definition first_marker :: "string \<Rightarrow> string \<Rightarrow> string \<Rightarrow> bool" where
  "first_marker kw s d \<longleftrightarrow>
     (\<exists>i. marker_at kw s i d \<and> (\<forall>j<i. \<forall>d'. \<not> marker_at kw s j d'))"

definition contains_marker :: "string \<Rightarrow> string \<Rightarrow> bool" where
  "contains_marker kw s \<longleftrightarrow> (\<exists>i d. marker_at kw s i d)"

section \<open>The parser in closed form\<close>

text \<open>
  The equations of \<open>splitlines\<close> are unfolded only where a concrete text is evaluated.
\<close>

declare splitlines.simps [simp del]

lemma parser_step_plain:
  "heading_match l = None \<Longrightarrow>
     parser_step st l =
       (case current_heading st of
          Some cur \<Rightarrow> st\<lparr>heading_content := heading_content st @ [l]\<rparr>
        | None \<Rightarrow> st)"
  by (simp add: parser_step_def)

lemma parser_step_heading:
  "heading_match l = Some (s, f) \<Longrightarrow>
     parser_step st l =
       (case current_heading st of
          Some cur \<Rightarrow>
            \<lparr>headings = headings st @ [close_heading cur (heading_content st)],
             current_heading = Some (new_heading l s f),
             heading_content = []\<rparr>
        | None \<Rightarrow> st\<lparr>current_heading := Some (new_heading l s f)\<rparr>)"
  by (simp add: parser_step_def)

lemma parser_loop_closed_form:
  "(current_heading st = None \<longrightarrow> heading_content st = []) \<Longrightarrow>
   parser_finish (foldl parser_step st ls) =
     headings st @
     (case current_heading st of
        None \<Rightarrow> headings_from ls
      | Some cur \<Rightarrow>
          close_heading cur (heading_content st @ takeWhile (\<lambda>x. heading_match x = None) ls)
            # headings_from ls)"
proof (induction ls arbitrary: st)
  case Nil
  show ?case by (simp add: parser_finish_def split: option.splits)
next
  case (Cons l ls)
  show ?case
  proof (cases "heading_match l")
    case None
    show ?thesis
    proof (cases "current_heading st")
      case None': None
      with None Cons.prems have "parser_step st l = st" by (simp add: parser_step_plain)
      with Cons.IH [of st] Cons.prems None None' show ?thesis by simp
    next
      case (Some cur)
      with None have st': "parser_step st l = st\<lparr>heading_content := heading_content st @ [l]\<rparr>"
        by (simp add: parser_step_plain)
      show ?thesis
        using Cons.IH [of "st\<lparr>heading_content := heading_content st @ [l]\<rparr>"] None Some
        by (simp add: st')
    qed
  next
    case (Some g)
    obtain s f where g: "g = (s, f)" by (cases g)
    show ?thesis
    proof (cases "current_heading st")
      case None
      with Some g have st': "parser_step st l = st\<lparr>current_heading := Some (new_heading l s f)\<rparr>"
        by (simp add: parser_step_heading)
      show ?thesis
        using Cons.IH [of "st\<lparr>current_heading := Some (new_heading l s f)\<rparr>"] None Some g Cons.prems
        by (simp add: st')
    next
      case cur: (Some cur)
      with Some g have st': "parser_step st l =
          \<lparr>headings = headings st @ [close_heading cur (heading_content st)],
           current_heading = Some (new_heading l s f), heading_content = []\<rparr>"
        by (simp add: parser_step_heading)
      show ?thesis
        using Cons.IH [of "\<lparr>headings = headings st @ [close_heading cur (heading_content st)],
           current_heading = Some (new_heading l s f), heading_content = []\<rparr>"] cur Some g
        by (simp add: st')
    qed
  qed
qed

lemma parse_lines_closed_form: "parse_lines ls = headings_from ls"
  by (simp add: parse_lines_def parser_loop_closed_form parser_init_def)

lemma extract_headings_closed_form: "extract_headings text = headings_from (splitlines text)"
  by (simp add: extract_headings_def parse_lines_closed_form)

lemma headings_from_no_heading:
  "(\<forall>l\<in>set ls. heading_match l = None) \<Longrightarrow> headings_from ls = []"
  by (induction ls) simp_all

lemma headings_from_skip:
  "(\<forall>l\<in>set pre. heading_match l = None) \<Longrightarrow> headings_from (pre @ ls) = headings_from ls"
  by (induction pre) simp_all

lemma raw_new_heading: "raw (new_heading l s f) = l"
  by (simp add: new_heading_def split: option.splits prod.splits)

lemma level_new_heading: "level (new_heading l s f) = length s"
  by (simp add: new_heading_def split: option.splits prod.splits)

lemma raw_headings_from:
  "map raw (headings_from ls) = filter (\<lambda>l. heading_match l \<noteq> None) ls"
  by (induction ls) (auto simp: close_heading_def raw_new_heading split: option.splits)

lemma heading_match_stars:
  "heading_match l = Some (s, f) \<Longrightarrow> s \<noteq> [] \<and> s = takeWhile (\<lambda>c. c = CHR ''*'') l"
  by (auto simp: heading_match_def Let_def split: if_splits)

lemma headings_from_member:
  "h \<in> set (headings_from ls) \<Longrightarrow>
     \<exists>l s f b. l \<in> set ls \<and> heading_match l = Some (s, f) \<and> h = close_heading (new_heading l s f) b"
proof (induction ls)
  case Nil
  then show ?case by simp
next
  case (Cons a ls)
  show ?case
  proof (cases "heading_match a")
    case None
    with Cons show ?thesis by auto
  next
    case (Some g)
    obtain s f where g: "g = (s, f)" by (cases g)
    from Cons.prems Some g
    consider "h = close_heading (new_heading a s f) (takeWhile (\<lambda>x. heading_match x = None) ls)"
      | "h \<in> set (headings_from ls)" by auto
    then show ?thesis
    proof cases
      case 1
      with Some g show ?thesis by auto
    next
      case 2
      with Cons.IH show ?thesis by auto
    qed
  qed
qed

lemma todo_match_token_only: "k \<in> set todo_tokens \<Longrightarrow> todo_match k = None"
  by (auto simp: todo_tokens_def todo_match_def)

lemma todo_match_token_space:
  assumes "k \<in> set todo_tokens" and "ws \<noteq> []" and "\<forall>c\<in>set ws. is_space c"
  shows "todo_match (k @ ws) = Some (k, [])"
proof -
  from assms(3) have t: "takeWhile is_space ws = ws" and d: "dropWhile is_space ws = []"
    by simp_all
  from assms(1) consider "k = ''TODO''" | "k = ''DONE''" | "k = ''IN-PROGRESS''"
    by (auto simp: todo_tokens_def)
  then show ?thesis
  proof cases
    case 1
    then show ?thesis using assms(2) by (simp add: todo_match_def todo_tokens_def t d)
  next
    case 2
    then show ?thesis using assms(2) by (simp add: todo_match_def todo_tokens_def t d)
  next
    case 3
    then show ?thesis using assms(2) by (simp add: todo_match_def todo_tokens_def t d)
  qed
qed


text \<open>The facts that evaluate the parser on a concrete text.\<close>

lemmas parse_eval = extract_headings_closed_form splitlines.simps is_linebreak_def
  heading_match_def is_space_def new_heading_def todo_match_def todo_tokens_def close_heading_def

section \<open>The parser never fails and drops the preamble\<close>

text \<open>
  Claim C6. The parser is a total function from texts to heading sequences: it has no
  error value and every operation of the source it models is defined on every input.
  A text without heading lines gives the empty sequence; lines before the first heading
  line change nothing in the result, which is that of the remaining lines alone; the raw
  lines of the result are exactly the heading lines of the text, in order; and every
  heading produced is well formed: its raw line matches the heading-line grammar and its
  level is the length of the star run of that line, at least one.
\<close>

theorem extract_headings_total:
  "((\<forall>l\<in>set (splitlines text). heading_match l = None) \<longrightarrow> extract_headings text = []) \<and>
   (\<forall>pre rest. splitlines text = pre @ rest \<and> (\<forall>l\<in>set pre. heading_match l = None)
      \<longrightarrow> extract_headings text = parse_lines rest) \<and>
   map raw (extract_headings text) = filter (\<lambda>l. heading_match l \<noteq> None) (splitlines text) \<and>
   (\<forall>h\<in>set (extract_headings text).
      1 \<le> level h \<and> level h = length (takeWhile (\<lambda>c. c = CHR ''*'') (raw h))
      \<and> heading_match (raw h) \<noteq> None)"
proof -
  have v: "1 \<le> level h \<and> level h = length (takeWhile (\<lambda>c. c = CHR ''*'') (raw h))
      \<and> heading_match (raw h) \<noteq> None" if "h \<in> set (extract_headings text)" for h
  proof -
    from that obtain l s f b
      where l: "heading_match l = Some (s, f)" and h: "h = close_heading (new_heading l s f) b"
      using headings_from_member [of h "splitlines text"]
      by (auto simp: extract_headings_closed_form)
    have r: "raw h = l" and lv: "level h = length s"
      by (simp_all add: h close_heading_def raw_new_heading level_new_heading)
    from heading_match_stars [OF l]
    have ne: "s \<noteq> []" and st: "s = takeWhile (\<lambda>c. c = CHR ''*'') l"
      by blast+
    from ne have "1 \<le> length s" by (cases s) simp_all
    with r lv l st show ?thesis by simp
  qed
  have a: "(\<forall>l\<in>set (splitlines text). heading_match l = None) \<longrightarrow> extract_headings text = []"
    by (simp add: extract_headings_closed_form headings_from_no_heading)
  have b: "\<forall>pre rest. splitlines text = pre @ rest \<and> (\<forall>l\<in>set pre. heading_match l = None)
      \<longrightarrow> extract_headings text = parse_lines rest"
    by (simp add: extract_headings_closed_form parse_lines_closed_form headings_from_skip)
  have c: "map raw (extract_headings text) =
      filter (\<lambda>l. heading_match l \<noteq> None) (splitlines text)"
    by (simp add: extract_headings_closed_form raw_headings_from)
  have d: "\<forall>h\<in>set (extract_headings text).
      1 \<le> level h \<and> level h = length (takeWhile (\<lambda>c. c = CHR ''*'') (raw h))
      \<and> heading_match (raw h) \<noteq> None"
    using v by (rule ballI)
  show ?thesis by (rule conjI [OF a conjI [OF b conjI [OF c d]]])
qed

theorem extract_headings_total_witness:
  "extract_headings ''intro\<newline>more'' = [] \<and>
   extract_headings ''intro\<newline>* A\<newline>body'' = parse_lines [''* A'', ''body''] \<and>
   level (hd (extract_headings ''intro\<newline>* A\<newline>body'')) = 1"
proof -
  have s1: "splitlines ''intro\<newline>more'' = [''intro'', ''more'']"
    by (simp add: splitlines.simps is_linebreak_def)
  have s2: "splitlines ''intro\<newline>* A\<newline>body'' = [''intro''] @ [''* A'', ''body'']"
    by (simp add: splitlines.simps is_linebreak_def)
  have n1: "heading_match ''intro'' = None" by (simp add: heading_match_def)
  have n2: "heading_match ''more'' = None" by (simp add: heading_match_def)
  have n3: "heading_match ''body'' = None" by (simp add: heading_match_def)
  have m: "heading_match ''* A'' = Some (''*'', ''A'')"
    by (simp add: heading_match_def is_space_def)
  note T1 = extract_headings_total [of "''intro\<newline>more''", THEN conjunct1, rule_format]
  note T2 = extract_headings_total [of "''intro\<newline>* A\<newline>body''", THEN conjunct2,
      THEN conjunct1, rule_format, of "[''intro'']" "[''* A'', ''body'']"]
  note T3 = extract_headings_total [of "''intro\<newline>* A\<newline>body''", THEN conjunct2,
      THEN conjunct2, THEN conjunct1]
  note T4 = extract_headings_total [of "''intro\<newline>* A\<newline>body''", THEN conjunct2,
      THEN conjunct2, THEN conjunct2, rule_format]
  have a: "extract_headings ''intro\<newline>more'' = []"
    by (rule T1) (auto simp: s1 n1 n2)
  have b: "extract_headings ''intro\<newline>* A\<newline>body'' = parse_lines [''* A'', ''body'']"
    by (rule T2) (auto simp: s2 n1)
  have r: "map raw (extract_headings ''intro\<newline>* A\<newline>body'') = [''* A'']"
    using T3 by (simp add: s2 n1 n3 m)
  then obtain h where h: "extract_headings ''intro\<newline>* A\<newline>body'' = [h]" and rh: "raw h = ''* A''"
    by auto
  have "level h = length (takeWhile (\<lambda>c. c = CHR ''*'') (raw h))"
    using T4 [of h] by (simp add: h)
  then have c: "level (hd (extract_headings ''intro\<newline>* A\<newline>body'')) = 1"
    by (simp add: h rh)
  from a b c show ?thesis by simp
qed

section \<open>A heading whose free text is only a todo token\<close>

text \<open>
  Claim C7, as the code has it. The todo pattern asks for at least one whitespace
  character after the token. A heading line whose free text is exactly \<open>TODO\<close>, \<open>DONE\<close>
  or \<open>IN-PROGRESS\<close> therefore keeps the token as its title and has no todo state. The
  title is the empty string, with the token as todo state, when the token is followed by
  whitespace and nothing else.
\<close>

theorem heading_token_only_title:
  assumes "h \<in> set (extract_headings text)"
    and "heading_match (raw h) = Some (stars, free)"
    and "k \<in> set todo_tokens"
  shows "(free = k \<longrightarrow> title h = k \<and> todo_state h = None) \<and>
         (\<forall>ws. free = k @ ws \<and> ws \<noteq> [] \<and> (\<forall>c\<in>set ws. is_space c)
            \<longrightarrow> title h = [] \<and> todo_state h = Some k)"
proof -
  from assms(1) obtain l s f b
    where l: "heading_match l = Some (s, f)" and h: "h = close_heading (new_heading l s f) b"
    using headings_from_member [of h "splitlines text"]
    by (auto simp: extract_headings_closed_form)
  have "raw h = l" by (simp add: h close_heading_def raw_new_heading)
  with assms(2) l have sf: "s = stars" "f = free" by simp_all
  have t: "title h = title (new_heading l stars free)"
    and d: "todo_state h = todo_state (new_heading l stars free)"
    by (simp_all add: h sf close_heading_def)
  show ?thesis
    using assms(3)
    by (auto simp: t d new_heading_def todo_match_token_only todo_match_token_space)
qed

theorem heading_token_only_title_witness:
  "title (hd (extract_headings ''* TODO'')) = ''TODO'' \<and>
   todo_state (hd (extract_headings ''* TODO'')) = None \<and>
   title (hd (extract_headings ''** DONE '')) = [] \<and>
   todo_state (hd (extract_headings ''** DONE '')) = Some ''DONE''"
proof -
  have e1: "extract_headings ''* TODO'' =
      [\<lparr>level = 1, title = ''TODO'', raw = ''* TODO'', todo_state = None, content = []\<rparr>]"
    by code_simp
  have e2: "extract_headings ''** DONE '' =
      [\<lparr>level = 2, title = [], raw = ''** DONE '', todo_state = Some ''DONE'', content = []\<rparr>]"
    by code_simp
  have m1: "heading_match ''* TODO'' = Some (''*'', ''TODO'')" by code_simp
  have m2: "heading_match ''** DONE '' = Some (''**'', ''DONE '')" by code_simp
  have s: "is_space CHR '' ''" by code_simp
  have a: "title (hd (extract_headings ''* TODO'')) = ''TODO'' \<and>
           todo_state (hd (extract_headings ''* TODO'')) = None"
    using heading_token_only_title [of "hd (extract_headings ''* TODO'')" "''* TODO''" "''*''"
        "''TODO''" "''TODO''"] m1
    by (simp add: e1 todo_tokens_def)
  have b: "title (hd (extract_headings ''** DONE '')) = [] \<and>
           todo_state (hd (extract_headings ''** DONE '')) = Some ''DONE''"
    using heading_token_only_title [of "hd (extract_headings ''** DONE '')" "''** DONE ''" "''**''"
        "''DONE ''" "''DONE''"] m2 s
    by (simp add: e2 todo_tokens_def)
  from a b show ?thesis by simp
qed

text \<open>
  The claim as stated fails on the line \<open>* TODO\<close>: the title is \<open>TODO\<close>, not the empty
  string.
\<close>

theorem token_only_title_counterexample:
  "heading_match ''* TODO'' = Some (''*'', ''TODO'') \<and>
   map title (extract_headings ''* TODO'') = [''TODO''] \<and>
   map todo_state (extract_headings ''* TODO'') = [None]"
proof -
  have m: "heading_match ''* TODO'' = Some (''*'', ''TODO'')" by code_simp
  have e: "extract_headings ''* TODO'' =
      [\<lparr>level = 1, title = ''TODO'', raw = ''* TODO'', todo_state = None, content = []\<rparr>]"
    by code_simp
  show ?thesis by (simp add: m e)
qed


section \<open>Locating a heading by title\<close>

lemma find_heading_Some:
  "find_heading hs t = Some h \<longleftrightarrow>
     (\<exists>i<length hs. hs ! i = h \<and> title h = t \<and> (\<forall>j<i. title (hs ! j) \<noteq> t))"
proof (induction hs)
  case Nil
  show ?case by simp
next
  case (Cons a hs)
  show ?case
  proof (cases "title a = t")
    case True
    have "(\<exists>i<length (a # hs). (a # hs) ! i = h \<and> title h = t \<and>
            (\<forall>j<i. title ((a # hs) ! j) \<noteq> t)) \<longleftrightarrow> a = h"
    proof
      assume "\<exists>i<length (a # hs). (a # hs) ! i = h \<and> title h = t \<and>
            (\<forall>j<i. title ((a # hs) ! j) \<noteq> t)"
      then obtain i where i: "(a # hs) ! i = h" "\<forall>j<i. title ((a # hs) ! j) \<noteq> t" by blast
      have "i = 0"
      proof (rule ccontr)
        assume "i \<noteq> 0"
        then have "0 < i" by simp
        with i(2) have "title ((a # hs) ! 0) \<noteq> t" by blast
        with True show False by simp
      qed
      with i(1) show "a = h" by simp
    next
      assume "a = h"
      with True have "(a # hs) ! 0 = h \<and> title h = t \<and> (\<forall>j<0. title ((a # hs) ! j) \<noteq> t)"
        by simp
      then show "\<exists>i<length (a # hs). (a # hs) ! i = h \<and> title h = t \<and>
            (\<forall>j<i. title ((a # hs) ! j) \<noteq> t)" by (intro exI [of _ 0]) simp
    qed
    with True show ?thesis by simp
  next
    case False
    have "(\<exists>i<length (a # hs). (a # hs) ! i = h \<and> title h = t \<and>
            (\<forall>j<i. title ((a # hs) ! j) \<noteq> t)) \<longleftrightarrow>
          (\<exists>i<length hs. hs ! i = h \<and> title h = t \<and> (\<forall>j<i. title (hs ! j) \<noteq> t))"
      (is "?L \<longleftrightarrow> ?R")
    proof
      assume ?L
      then obtain i where i: "i < length (a # hs)" "(a # hs) ! i = h" "title h = t"
        "\<forall>j<i. title ((a # hs) ! j) \<noteq> t" by blast
      from i(2,3) False have "i \<noteq> 0" by (cases i) auto
      then obtain k where k: "i = Suc k" by (cases i) auto
      have "\<forall>j<k. title (hs ! j) \<noteq> t"
      proof (intro allI impI)
        fix j assume "j < k"
        then have "Suc j < i" by (simp add: k)
        with i(4) have "title ((a # hs) ! Suc j) \<noteq> t" by blast
        then show "title (hs ! j) \<noteq> t" by simp
      qed
      with i k show ?R by auto
    next
      assume ?R
      then obtain i where i: "i < length hs" "hs ! i = h" "title h = t"
        "\<forall>j<i. title (hs ! j) \<noteq> t" by blast
      have "\<forall>j<Suc i. title ((a # hs) ! j) \<noteq> t"
      proof (intro allI impI)
        fix j assume "j < Suc i"
        then show "title ((a # hs) ! j) \<noteq> t" using False i(4) by (cases j) auto
      qed
      with i show ?L by (intro exI [of _ "Suc i"]) simp
    qed
    with False Cons.IH show ?thesis by simp
  qed
qed

lemma find_heading_None: "find_heading hs t = None \<longleftrightarrow> (\<forall>h\<in>set hs. title h \<noteq> t)"
  by (induction hs) auto

text \<open>
  Claim C4. When the file could be read and parsed into the headings \<open>hs\<close>, the locator
  returns a heading exactly when it is the first one in \<open>hs\<close> whose title equals the
  requested title (equality of strings, so case-sensitive); with several such headings
  it is the earliest. When no title equals the request the result is the error value
  for a heading that was not found, and no other error can arise.
\<close>

theorem read_heading_first_match:
  assumes "read_file_headings rd file_path = Inr hs"
  shows "(read_heading rd file_path t = Inr h \<longleftrightarrow>
            (\<exists>i<length hs. hs ! i = h \<and> title h = t \<and> (\<forall>j<i. title (hs ! j) \<noteq> t))) \<and>
         (read_heading rd file_path t = Inl (HeadingNotFound t file_path) \<longleftrightarrow>
            (\<forall>h\<in>set hs. title h \<noteq> t)) \<and>
         (\<forall>e. read_heading rd file_path t = Inl e \<longrightarrow> e = HeadingNotFound t file_path)"
proof -
  have r: "read_heading rd file_path t =
      (case find_heading hs t of Some h \<Rightarrow> Inr h | None \<Rightarrow> Inl (HeadingNotFound t file_path))"
    by (simp add: read_heading_def assms locate_heading_def)
  have a: "read_heading rd file_path t = Inr h \<longleftrightarrow>
            (\<exists>i<length hs. hs ! i = h \<and> title h = t \<and> (\<forall>j<i. title (hs ! j) \<noteq> t))"
    unfolding r find_heading_Some [symmetric] by (simp split: option.splits)
  have b: "read_heading rd file_path t = Inl (HeadingNotFound t file_path) \<longleftrightarrow>
            (\<forall>h\<in>set hs. title h \<noteq> t)"
    unfolding r find_heading_None [symmetric] by (simp split: option.splits)
  have c: "\<forall>e. read_heading rd file_path t = Inl e \<longrightarrow> e = HeadingNotFound t file_path"
    unfolding r by (simp split: option.splits)
  show ?thesis by (rule conjI [OF a conjI [OF b c]])
qed

theorem read_heading_first_match_witness:
  "read_heading (\<lambda>p. Inr ''* A\<newline>x\<newline>** TODO A\<newline>y'') ''f.org'' ''A'' =
     Inr \<lparr>level = 1, title = ''A'', raw = ''* A'', todo_state = None, content = ''x''\<rparr> \<and>
   read_heading (\<lambda>p. Inr ''* A\<newline>x\<newline>** TODO A\<newline>y'') ''f.org'' ''a'' =
     Inl (HeadingNotFound ''a'' ''f.org'')"
proof -
  let ?rd = "\<lambda>p::string. (Inr ''* A\<newline>x\<newline>** TODO A\<newline>y'' :: string + string)"
  let ?h1 = "\<lparr>level = 1, title = ''A'', raw = ''* A'', todo_state = None, content = ''x''\<rparr>"
  let ?h2 = "\<lparr>level = 2, title = ''A'', raw = ''** TODO A'', todo_state = Some ''TODO'',
              content = ''y''\<rparr>"
  have e: "extract_headings ''* A\<newline>x\<newline>** TODO A\<newline>y'' = [?h1, ?h2]"
    by (simp add: parse_eval)
  have r: "read_file_headings ?rd ''f.org'' = Inr [?h1, ?h2]"
    by (simp add: read_file_headings_def read_org_file_def e)
  note T = read_heading_first_match [OF r]
  have a: "read_heading ?rd ''f.org'' ''A'' = Inr ?h1"
    by (rule T [of "''A''" ?h1, THEN conjunct1, THEN iffD2], rule exI [of _ 0]) simp
  have b: "read_heading ?rd ''f.org'' ''a'' = Inl (HeadingNotFound ''a'' ''f.org'')"
    by (rule T [of "''a''" ?h1, THEN conjunct2, THEN conjunct1, THEN iffD2]) simp
  from a b show ?thesis by simp
qed

section \<open>The error guard of read_file_headings\<close>

text \<open>
  Claim C9. When reading the file raises an exception with text \<open>e\<close>, \<open>read_org_file\<close>
  returns "Error reading file: " followed by \<open>e\<close>. That string does not start with
  "Error:", so the guard of \<open>read_file_headings\<close> does not hold and the result is not
  the error record but the headings parsed from the message itself.
\<close>

theorem read_failure_parsed_as_content:
  assumes "rd file_path = Inl e"
  shows "read_org_file rd file_path = ''Error reading file: '' @ e \<and>
         \<not> prefix ''Error:'' (read_org_file rd file_path) \<and>
         read_file_headings rd file_path = Inr (extract_headings (''Error reading file: '' @ e)) \<and>
         read_file_headings rd file_path \<noteq> Inl (read_org_file rd file_path)"
proof -
  have a: "read_org_file rd file_path = ''Error reading file: '' @ e"
    by (simp add: read_org_file_def assms)
  have b: "\<not> prefix ''Error:'' (read_org_file rd file_path)"
    by (simp add: a)
  have c: "read_file_headings rd file_path =
      Inr (extract_headings (''Error reading file: '' @ e))"
    using b by (simp add: read_file_headings_def a)
  have d: "read_file_headings rd file_path \<noteq> Inl (read_org_file rd file_path)"
    by (simp add: c)
  show ?thesis by (rule conjI [OF a conjI [OF b conjI [OF c d]]])
qed

theorem read_failure_parsed_as_content_witness:
  "read_file_headings (\<lambda>p. Inl ''No such file'') ''notes.org'' = Inr [] \<and>
   read_org_file (\<lambda>p. Inl ''No such file'') ''notes.org'' = ''Error reading file: No such file''"
proof -
  let ?rd = "\<lambda>p::string. (Inl ''No such file'' :: string + string)"
  have T: "read_org_file ?rd ''notes.org'' = ''Error reading file: '' @ ''No such file'' \<and>
         \<not> prefix ''Error:'' (read_org_file ?rd ''notes.org'') \<and>
         read_file_headings ?rd ''notes.org'' =
           Inr (extract_headings (''Error reading file: '' @ ''No such file'')) \<and>
         read_file_headings ?rd ''notes.org'' \<noteq> Inl (read_org_file ?rd ''notes.org'')"
    by (rule read_failure_parsed_as_content [of ?rd "''notes.org''" "''No such file''"]) simp
  have e: "extract_headings ''Error reading file: No such file'' = []"
    by (simp add: parse_eval)
  have a: "read_file_headings ?rd ''notes.org'' = Inr []"
    using T [THEN conjunct2, THEN conjunct2, THEN conjunct1] e by simp
  have b: "read_org_file ?rd ''notes.org'' = ''Error reading file: No such file''"
    using T [THEN conjunct1] by simp
  from a b show ?thesis by simp
qed

section \<open>Scheduled and deadline items\<close>

lemma scheduled_step_append: "scheduled_step acc h = acc @ scheduled_step [] h"
  by (simp add: scheduled_step_def Let_def split: option.splits)

lemma scheduled_loop_concat:
  "foldl scheduled_step acc hs = acc @ concat (map (scheduled_step []) hs)"
proof (induction hs arbitrary: acc)
  case Nil
  show ?case by simp
next
  case (Cons h hs)
  have "foldl scheduled_step acc (h # hs) = foldl scheduled_step (scheduled_step acc h) hs"
    by simp
  also have "\<dots> = scheduled_step acc h @ concat (map (scheduled_step []) hs)"
    by (rule Cons.IH)
  also have "\<dots> = acc @ concat (map (scheduled_step []) (h # hs))"
    by (simp add: scheduled_step_append [of acc h])
  finally show ?case .
qed

lemma iso_date_length: "iso_date d \<Longrightarrow> length d = 10"
  by (auto simp: iso_date_def)

lemma date_shape_list:
  "date_shape d \<Longrightarrow>
     \<exists>y1 y2 y3 y4 s1 m1 m2 s2 d1 d2. d = [y1, y2, y3, y4, s1, m1, m2, s2, d1, d2]"
  by (erule date_shape.elims(2)) simp

lemma date_shape_iso: "date_shape d \<longleftrightarrow> iso_date d"
proof
  assume ds: "date_shape d"
  from date_shape_list [OF ds] obtain y1 y2 y3 y4 s1 m1 m2 s2 d1 d2
    where d: "d = [y1, y2, y3, y4, s1, m1, m2, s2, d1, d2]"
    by (elim exE)
  from ds show "iso_date d"
    unfolding iso_date_def d
    by (intro exI [of _ "[y1, y2, y3, y4]"] exI [of _ "[m1, m2]"] exI [of _ "[d1, d2]"]) simp
next
  assume "iso_date d"
  then obtain y m dd where d: "d = y @ ''-'' @ m @ ''-'' @ dd"
    and l: "length y = 4" "length m = 2" "length dd = 2"
    and g: "\<forall>c\<in>set (y @ m @ dd). is_digit c"
    unfolding iso_date_def by (elim exE conjE)
  from l(1) obtain y1 y2 y3 y4 where y: "y = [y1, y2, y3, y4]"
    by (auto simp: length_Suc_conv eval_nat_numeral)
  from l(2) obtain m1 m2 where m: "m = [m1, m2]"
    by (auto simp: length_Suc_conv eval_nat_numeral)
  from l(3) obtain d1 d2 where dd: "dd = [d1, d2]"
    by (auto simp: length_Suc_conv eval_nat_numeral)
  from g show "date_shape d" by (simp add: d y m dd)
qed

lemma lt_no_space: "\<not> is_space (CHR ''<'')"
  by (simp add: is_space_def)

lemma closes_iff:
  "closes r \<longleftrightarrow>
     (\<exists>inner rest. r = inner @ ''>'' @ rest \<and> CHR ''>'' \<notin> set inner \<and>
        (inner = [] \<or> hd inner = CHR '' ''))"
proof
  assume c: "closes r"
  then obtain x xs where r: "r = x # xs" by (cases r) auto
  from c r consider "x = CHR ''>''" | "x = CHR '' ''" "CHR ''>'' \<in> set xs" by auto
  then show "\<exists>inner rest. r = inner @ ''>'' @ rest \<and> CHR ''>'' \<notin> set inner \<and>
        (inner = [] \<or> hd inner = CHR '' '')"
  proof cases
    case 1
    with r show ?thesis by (intro exI [of _ "[]"] exI [of _ xs]) simp
  next
    case 2
    from split_list_first [OF 2(2)] obtain a b where ab: "xs = a @ CHR ''>'' # b"
      "CHR ''>'' \<notin> set a" by blast
    with r 2(1) show ?thesis by (intro exI [of _ "CHR '' '' # a"] exI [of _ b]) simp
  qed
next
  assume "\<exists>inner rest. r = inner @ ''>'' @ rest \<and> CHR ''>'' \<notin> set inner \<and>
        (inner = [] \<or> hd inner = CHR '' '')"
  then obtain inner rest where r: "r = inner @ ''>'' @ rest"
    and h: "inner = [] \<or> hd inner = CHR '' ''" by (elim exE conjE)
  show "closes r"
  proof (cases inner)
    case Nil
    with r show ?thesis by simp
  next
    case (Cons x xs)
    with h have "x = CHR '' ''" by simp
    with r Cons show ?thesis by simp
  qed
qed

lemma marker_match_spaced: "marker_match kw s = Some d \<longleftrightarrow> spaced_marker_text kw s d"
proof
  assume m: "marker_match kw s = Some d"
  then have p: "prefix kw s" by (simp add: marker_match_def split: if_splits)
  then obtain s' where s: "s = kw @ s'" by (auto simp: prefix_def)
  define ws where "ws = takeWhile is_space s'"
  from m s obtain r where dw: "dropWhile is_space s' = CHR ''<'' # r"
    and ds: "date_shape (take 10 r)" and cl: "closes (drop 10 r)" and d: "d = take 10 r"
    by (auto simp: marker_match_def split: list.splits if_splits)
  from cl obtain inner rest where ir: "drop 10 r = inner @ ''>'' @ rest"
    "CHR ''>'' \<notin> set inner" "inner = [] \<or> hd inner = CHR '' ''"
    unfolding closes_iff by (elim exE conjE)
  have "s' = ws @ dropWhile is_space s'" by (simp add: ws_def)
  also have "\<dots> = ws @ ''<'' @ r" by (simp add: dw)
  also have "r = take 10 r @ drop 10 r" by simp
  finally have "s = kw @ ws @ ''<'' @ d @ inner @ ''>'' @ rest"
    by (simp add: s d ir(1))
  moreover have "\<forall>c\<in>set ws. is_space c" by (auto simp: ws_def dest: set_takeWhileD)
  moreover from ds d have "iso_date d" by (simp add: date_shape_iso)
  ultimately show "spaced_marker_text kw s d"
    unfolding spaced_marker_text_def using ir(2,3)
    by (intro exI [of _ ws] exI [of _ inner] exI [of _ rest]) simp
next
  assume "spaced_marker_text kw s d"
  then obtain ws inner rest where s: "s = kw @ ws @ ''<'' @ d @ inner @ ''>'' @ rest"
    and ws: "\<forall>c\<in>set ws. is_space c" and dt: "iso_date d"
    and ir: "CHR ''>'' \<notin> set inner" "inner = [] \<or> hd inner = CHR '' ''"
    unfolding spaced_marker_text_def by (elim exE conjE)
  let ?tail = "inner @ CHR ''>'' # rest"
  have dr: "drop (length kw) s = ws @ CHR ''<'' # d @ ?tail" by (simp add: s)
  have dw: "dropWhile is_space (ws @ CHR ''<'' # d @ ?tail) = CHR ''<'' # d @ ?tail"
    using ws lt_no_space by (simp add: dropWhile_append2)
  from iso_date_length [OF dt] have l: "length d = 10" .
  have "closes (inner @ ''>'' @ rest)" unfolding closes_iff using ir
    by (intro exI [of _ inner] exI [of _ rest]) simp
  then have cl: "closes ?tail" by simp
  have p: "prefix kw s" by (simp add: s)
  have "marker_match kw s =
      (case CHR ''<'' # d @ ?tail of [] \<Rightarrow> None
       | c # r \<Rightarrow> if c = CHR ''<'' \<and> date_shape (take 10 r) \<and> closes (drop 10 r)
                  then Some (take 10 r) else None)"
    unfolding marker_match_def dr dw using p by simp
  also have "\<dots> = Some d" using dt cl l by (simp add: date_shape_iso)
  finally show "marker_match kw s = Some d" .
qed

lemma spaced_marker_is_marker: "spaced_marker_text kw s d \<Longrightarrow> marker_text kw s d"
proof -
  assume "spaced_marker_text kw s d"
  then obtain ws inner rest where "s = kw @ ws @ ''<'' @ d @ inner @ ''>'' @ rest"
    "\<forall>c\<in>set ws. is_space c" "iso_date d" "CHR ''>'' \<notin> set inner"
    unfolding spaced_marker_text_def by (elim exE conjE)
  then show ?thesis
    unfolding marker_text_def by (intro exI [of _ ws] exI [of _ inner] exI [of _ rest]) simp
qed

lemma marker_at_code:
  "marker_at kw s i d \<longleftrightarrow> i \<le> length s \<and> marker_match kw (drop i s) = Some d"
  by (simp add: marker_at_def marker_match_spaced)

lemma first_marker_code:
  "first_marker kw s d \<longleftrightarrow>
     (\<exists>i. marker_at kw s i d \<and> (\<forall>j<i. marker_match kw (drop j s) = None))"
proof -
  have "(\<forall>j<i. \<forall>d'. \<not> marker_at kw s j d') \<longleftrightarrow> (\<forall>j<i. marker_match kw (drop j s) = None)"
    if "i \<le> length s" for i
    using that by (auto simp: marker_at_code)
  then show ?thesis
    unfolding first_marker_def by (auto simp: marker_at_code)
qed

lemma first_marker_Nil: "first_marker kw [] d \<longleftrightarrow> marker_match kw [] = Some d"
  by (auto simp: first_marker_code marker_at_code)

lemma first_marker_Cons_hit:
  assumes "marker_match kw (c # cs) = Some d'"
  shows "first_marker kw (c # cs) d \<longleftrightarrow> d = d'"
proof
  assume "first_marker kw (c # cs) d"
  then obtain i where i: "marker_match kw (drop i (c # cs)) = Some d"
    and m: "\<forall>j<i. marker_match kw (drop j (c # cs)) = None"
    by (auto simp: first_marker_code marker_at_code)
  have "i = 0"
  proof (rule ccontr)
    assume "i \<noteq> 0"
    then have "0 < i" by simp
    with m have "marker_match kw (drop 0 (c # cs)) = None" by blast
    with assms show False by simp
  qed
  with i assms show "d = d'" by simp
next
  assume "d = d'"
  with assms have "marker_at kw (c # cs) 0 d" by (simp add: marker_at_code)
  then show "first_marker kw (c # cs) d"
    unfolding first_marker_code by (intro exI [of _ 0]) simp
qed

lemma first_marker_Cons_miss:
  assumes "marker_match kw (c # cs) = None"
  shows "first_marker kw (c # cs) d \<longleftrightarrow> first_marker kw cs d"
proof
  assume "first_marker kw (c # cs) d"
  then obtain i where i: "i \<le> length (c # cs)" "marker_match kw (drop i (c # cs)) = Some d"
    and m: "\<forall>j<i. marker_match kw (drop j (c # cs)) = None"
    by (auto simp: first_marker_code marker_at_code)
  from i(2) assms have "i \<noteq> 0" by (cases i) auto
  then obtain k where k: "i = Suc k" by (cases i) auto
  have "\<forall>j<k. marker_match kw (drop j cs) = None"
  proof (intro allI impI)
    fix j assume "j < k"
    then have "Suc j < i" by (simp add: k)
    with m have "marker_match kw (drop (Suc j) (c # cs)) = None" by blast
    then show "marker_match kw (drop j cs) = None" by simp
  qed
  with i k show "first_marker kw cs d"
    unfolding first_marker_code marker_at_code by (intro exI [of _ k]) simp
next
  assume "first_marker kw cs d"
  then obtain i where i: "i \<le> length cs" "marker_match kw (drop i cs) = Some d"
    and m: "\<forall>j<i. marker_match kw (drop j cs) = None"
    by (auto simp: first_marker_code marker_at_code)
  have "\<forall>j<Suc i. marker_match kw (drop j (c # cs)) = None"
  proof (intro allI impI)
    fix j assume "j < Suc i"
    then show "marker_match kw (drop j (c # cs)) = None" using assms m by (cases j) auto
  qed
  with i show "first_marker kw (c # cs) d"
    unfolding first_marker_code marker_at_code by (intro exI [of _ "Suc i"]) simp
qed

lemma marker_search_Some: "marker_search kw s = Some d \<longleftrightarrow> first_marker kw s d"
proof (induction s)
  case Nil
  show ?case by (simp add: first_marker_Nil)
next
  case (Cons c cs)
  show ?case
  proof (cases "marker_match kw (c # cs)")
    case None
    then show ?thesis by (simp add: first_marker_Cons_miss Cons.IH)
  next
    case (Some d')
    then show ?thesis by (auto simp: first_marker_Cons_hit)
  qed
qed

lemma first_marker_contains: "first_marker kw s d \<Longrightarrow> contains_marker kw s"
  by (auto simp: first_marker_code contains_marker_def)

lemma marker_search_None: "marker_search kw s = None \<longleftrightarrow> \<not> contains_marker kw s"
proof (induction s)
  case Nil
  show ?case by (auto simp: contains_marker_def marker_at_code)
next
  case (Cons c cs)
  have c: "contains_marker kw (c # cs) \<longleftrightarrow>
      marker_match kw (c # cs) \<noteq> None \<or> contains_marker kw cs"
  proof
    assume "contains_marker kw (c # cs)"
    then obtain i d where i: "i \<le> length (c # cs)" "marker_match kw (drop i (c # cs)) = Some d"
      by (auto simp: contains_marker_def marker_at_code)
    show "marker_match kw (c # cs) \<noteq> None \<or> contains_marker kw cs"
    proof (cases i)
      case 0
      with i show ?thesis by simp
    next
      case (Suc k)
      with i have "marker_at kw cs k d" by (simp add: marker_at_code)
      then show ?thesis by (auto simp: contains_marker_def)
    qed
  next
    assume "marker_match kw (c # cs) \<noteq> None \<or> contains_marker kw cs"
    then show "contains_marker kw (c # cs)"
    proof
      assume "marker_match kw (c # cs) \<noteq> None"
      then obtain d where "marker_match kw (c # cs) = Some d" by auto
      then have "marker_at kw (c # cs) 0 d" by (simp add: marker_at_code)
      then show ?thesis unfolding contains_marker_def by blast
    next
      assume "contains_marker kw cs"
      then obtain i d where "marker_at kw cs i d" by (auto simp: contains_marker_def)
      then have "marker_at kw (c # cs) (Suc i) d" by (simp add: marker_at_code)
      then show ?thesis unfolding contains_marker_def by blast
    qed
  qed
  show ?case
    by (cases "marker_match kw (c # cs)") (simp_all add: c Cons.IH)
qed

lemma first_marker_date: "first_marker kw s d \<Longrightarrow> iso_date d"
proof -
  assume "first_marker kw s d"
  then obtain i where "marker_match kw (drop i s) = Some d"
    by (auto simp: first_marker_code marker_at_code)
  then have "spaced_marker_text kw (drop i s) d" by (simp add: marker_match_spaced)
  then show ?thesis unfolding spaced_marker_text_def by (elim exE conjE)
qed

lemma contains_marker_search: "contains_marker kw s \<longleftrightarrow> marker_search kw s \<noteq> None"
  by (simp add: marker_search_None)

lemma contains_marker_spec: "contains_marker kw s \<Longrightarrow> contains_spec_marker kw s"
  unfolding contains_marker_def contains_spec_marker_def marker_at_def
  using spaced_marker_is_marker by blast

text \<open>The facts that evaluate the marker search on a concrete content.\<close>

lemmas marker_eval = marker_search.simps marker_match_def is_space_def is_digit_def

declare marker_search.simps [simp del]

lemma spec_marker_bracket: "contains_spec_marker kw s \<Longrightarrow> CHR ''<'' \<in> set s"
proof -
  assume "contains_spec_marker kw s"
  then obtain i d ws inner rest
    where "drop i s = kw @ ws @ ''<'' @ d @ inner @ ''>'' @ rest"
    unfolding contains_spec_marker_def marker_text_def by (elim exE conjE)
  then have "CHR ''<'' \<in> set (drop i s)" by simp
  then show ?thesis by (rule in_set_dropD)
qed

text \<open>
  Claim C5, as the code has it. The items extracted from a heading sequence are the items
  of each heading, one heading after the other. A heading whose content contains neither
  marker, in the grammar of the specification, gives no item. The pattern of the code is
  narrower than that grammar: it takes a marker only when the date is followed at once
  by the closing bracket, or by a space and then any text up to the closing bracket. A
  heading whose content contains neither marker in this narrower sense gives no item
  either; one whose content contains both gives exactly two, the scheduled item and then
  the deadline item. The date of every item is the date of the first such marker of its
  kind in the content of its heading, of the shape YYYY-MM-DD.
\<close>

theorem scheduled_items_per_heading:
  "scheduled_items_of hs = concat (map (scheduled_step []) hs) \<and>
   (\<forall>h. \<not> contains_marker ''SCHEDULED:'' (content h) \<and>
         \<not> contains_marker ''DEADLINE:'' (content h)
      \<longrightarrow> scheduled_step [] h = []) \<and>
   (\<forall>h. contains_marker ''SCHEDULED:'' (content h) \<and> contains_marker ''DEADLINE:'' (content h)
      \<longrightarrow> (\<exists>d1 d2. first_marker ''SCHEDULED:'' (content h) d1 \<and>
                   first_marker ''DEADLINE:'' (content h) d2 \<and>
                   scheduled_step [] h = [make_item ''scheduled'' d1 h, make_item ''deadline'' d2 h])) \<and>
   (\<forall>h it. it \<in> set (scheduled_step [] h)
      \<longrightarrow> iso_date (item_date it) \<and>
          (item_type it = ''scheduled'' \<and> first_marker ''SCHEDULED:'' (content h) (item_date it)
           \<or> item_type it = ''deadline'' \<and> first_marker ''DEADLINE:'' (content h) (item_date it))) \<and>
   (\<forall>h. \<not> contains_spec_marker ''SCHEDULED:'' (content h) \<and>
         \<not> contains_spec_marker ''DEADLINE:'' (content h)
      \<longrightarrow> scheduled_step [] h = [])"
proof -
  have a: "scheduled_items_of hs = concat (map (scheduled_step []) hs)"
    by (simp add: scheduled_items_of_def scheduled_loop_concat)
  have b: "\<forall>h. \<not> contains_marker ''SCHEDULED:'' (content h) \<and>
         \<not> contains_marker ''DEADLINE:'' (content h)
      \<longrightarrow> scheduled_step [] h = []"
    by (simp add: scheduled_step_def marker_search_None [symmetric])
  have c: "\<forall>h. contains_marker ''SCHEDULED:'' (content h) \<and>
        contains_marker ''DEADLINE:'' (content h)
      \<longrightarrow> (\<exists>d1 d2. first_marker ''SCHEDULED:'' (content h) d1 \<and>
                   first_marker ''DEADLINE:'' (content h) d2 \<and>
                   scheduled_step [] h = [make_item ''scheduled'' d1 h, make_item ''deadline'' d2 h])"
  proof (intro allI impI)
    fix h :: heading
    assume "contains_marker ''SCHEDULED:'' (content h) \<and> contains_marker ''DEADLINE:'' (content h)"
    then have "marker_search ''SCHEDULED:'' (content h) \<noteq> None"
      and "marker_search ''DEADLINE:'' (content h) \<noteq> None"
      by (simp_all add: marker_search_None)
    then obtain d1 d2 where d1: "marker_search ''SCHEDULED:'' (content h) = Some d1"
      and d2: "marker_search ''DEADLINE:'' (content h) = Some d2" by auto
    have "scheduled_step [] h = [make_item ''scheduled'' d1 h, make_item ''deadline'' d2 h]"
      by (simp add: scheduled_step_def d1 d2)
    with d1 d2 show "\<exists>d1 d2. first_marker ''SCHEDULED:'' (content h) d1 \<and>
                   first_marker ''DEADLINE:'' (content h) d2 \<and>
                   scheduled_step [] h = [make_item ''scheduled'' d1 h, make_item ''deadline'' d2 h]"
      unfolding marker_search_Some by blast
  qed
  have d: "\<forall>h it. it \<in> set (scheduled_step [] h)
      \<longrightarrow> iso_date (item_date it) \<and>
          (item_type it = ''scheduled'' \<and> first_marker ''SCHEDULED:'' (content h) (item_date it)
           \<or> item_type it = ''deadline'' \<and> first_marker ''DEADLINE:'' (content h) (item_date it))"
  proof (intro allI impI)
    fix h :: heading and it :: scheduled_item
    assume m: "it \<in> set (scheduled_step [] h)"
    have "(\<exists>d. marker_search ''SCHEDULED:'' (content h) = Some d \<and>
              it = make_item ''scheduled'' d h) \<or>
          (\<exists>d. marker_search ''DEADLINE:'' (content h) = Some d \<and>
              it = make_item ''deadline'' d h)"
    proof (cases "marker_search ''SCHEDULED:'' (content h)")
      case None
      show ?thesis
      proof (cases "marker_search ''DEADLINE:'' (content h)")
        case n: None
        with None m show ?thesis by (simp add: scheduled_step_def)
      next
        case (Some d2)
        with None m show ?thesis by (simp add: scheduled_step_def)
      qed
    next
      case (Some d1)
      show ?thesis
      proof (cases "marker_search ''DEADLINE:'' (content h)")
        case None
        with Some m show ?thesis by (simp add: scheduled_step_def)
      next
        case s: (Some d2)
        with Some m show ?thesis by (auto simp: scheduled_step_def)
      qed
    qed
    then consider d where "marker_search ''SCHEDULED:'' (content h) = Some d"
        "it = make_item ''scheduled'' d h"
      | d where "marker_search ''DEADLINE:'' (content h) = Some d"
        "it = make_item ''deadline'' d h"
      by blast
    then show "iso_date (item_date it) \<and>
          (item_type it = ''scheduled'' \<and> first_marker ''SCHEDULED:'' (content h) (item_date it)
           \<or> item_type it = ''deadline'' \<and> first_marker ''DEADLINE:'' (content h) (item_date it))"
    proof cases
      case 1
      from 1(1) have f: "first_marker ''SCHEDULED:'' (content h) d"
        by (simp add: marker_search_Some)
      from f first_marker_date [OF f] 1(2) show ?thesis by (simp add: make_item_def)
    next
      case 2
      from 2(1) have f: "first_marker ''DEADLINE:'' (content h) d"
        by (simp add: marker_search_Some)
      from f first_marker_date [OF f] 2(2) show ?thesis by (simp add: make_item_def)
    qed
  qed
  have e: "\<forall>h. \<not> contains_spec_marker ''SCHEDULED:'' (content h) \<and>
         \<not> contains_spec_marker ''DEADLINE:'' (content h)
      \<longrightarrow> scheduled_step [] h = []"
    using b contains_marker_spec by blast
  show ?thesis by (rule conjI [OF a conjI [OF b conjI [OF c conjI [OF d e]]]])
qed

theorem scheduled_items_per_heading_witness:
  "scheduled_items_of
     [\<lparr>level = 1, title = ''Buy milk'', raw = ''* TODO Buy milk'', todo_state = Some ''TODO'',
       content = ''SCHEDULED: <2024-01-10 Wed>\<newline>DEADLINE: <2024-01-15>''\<rparr>,
      \<lparr>level = 2, title = ''Sub task'', raw = ''** Sub task'', todo_state = None,
       content = ''notes''\<rparr>] =
   [\<lparr>item_type = ''scheduled'', item_date = ''2024-01-10'', item_title = ''Buy milk'',
     item_todo_state = Some ''TODO'', item_level = 1\<rparr>,
    \<lparr>item_type = ''deadline'', item_date = ''2024-01-15'', item_title = ''Buy milk'',
     item_todo_state = Some ''TODO'', item_level = 1\<rparr>]"
proof -
  let ?c1 = "''SCHEDULED: <2024-01-10 Wed>\<newline>DEADLINE: <2024-01-15>''"
  let ?h1 = "\<lparr>level = 1, title = ''Buy milk'', raw = ''* TODO Buy milk'',
    todo_state = Some ''TODO'', content = ?c1\<rparr>"
  let ?h2 = "\<lparr>level = 2, title = ''Sub task'', raw = ''** Sub task'', todo_state = None,
    content = ''notes''\<rparr>"
  have s1: "marker_search ''SCHEDULED:'' ?c1 = Some ''2024-01-10''"
    by (simp add: marker_eval)
  have d1: "marker_search ''DEADLINE:'' ?c1 = Some ''2024-01-15''"
    by (simp add: marker_eval)
  have s2: "marker_search ''SCHEDULED:'' ''notes'' = None"
    by (simp add: marker_eval)
  have d2: "marker_search ''DEADLINE:'' ''notes'' = None"
    by (simp add: marker_eval)
  note T = scheduled_items_per_heading [of "[?h1, ?h2]"]
  have all: "scheduled_items_of [?h1, ?h2] = scheduled_step [] ?h1 @ scheduled_step [] ?h2"
    using T [THEN conjunct1] by simp
  have none: "scheduled_step [] ?h2 = []"
    by (rule T [THEN conjunct2, THEN conjunct1, rule_format])
      (simp add: contains_marker_search s2 d2)
  have ns: "\<not> contains_spec_marker kw ''notes''" for kw
    using spec_marker_bracket [of kw "''notes''"] by auto
  have none_spec: "scheduled_step [] ?h2 = []"
    by (rule T [THEN conjunct2, THEN conjunct2, THEN conjunct2, THEN conjunct2, rule_format])
      (simp add: ns)
  have "\<exists>d1 d2. first_marker ''SCHEDULED:'' (content ?h1) d1 \<and>
      first_marker ''DEADLINE:'' (content ?h1) d2 \<and>
      scheduled_step [] ?h1 = [make_item ''scheduled'' d1 ?h1, make_item ''deadline'' d2 ?h1]"
    by (rule T [THEN conjunct2, THEN conjunct2, THEN conjunct1, rule_format])
      (simp add: contains_marker_search s1 d1)
  then obtain x y where "first_marker ''SCHEDULED:'' ?c1 x" "first_marker ''DEADLINE:'' ?c1 y"
    and st: "scheduled_step [] ?h1 = [make_item ''scheduled'' x ?h1, make_item ''deadline'' y ?h1]"
    by auto
  then have "x = ''2024-01-10''" "y = ''2024-01-15''"
    by (simp_all add: marker_search_Some [symmetric] s1 d1)
  with st have both: "scheduled_step [] ?h1 =
      [make_item ''scheduled'' ''2024-01-10'' ?h1, make_item ''deadline'' ''2024-01-15'' ?h1]"
    by simp
  show ?thesis unfolding all none_spec both by (simp add: make_item_def)
qed

text \<open>
  The claim as stated fails for the grammar of the specification, which ignores whatever
  stands between the date and the closing bracket. The content \<open>SCHEDULED: <2024-01-10Wed>\<close>,
  \<open>DEADLINE: <2024-01-15>\<close> contains both markers, but the pattern of the code asks for a
  space after the date when more text follows, so only the deadline item is emitted.
\<close>

theorem scheduled_items_counterexample:
  "extract_headings ''* T\<newline>SCHEDULED: <2024-01-10Wed>\<newline>DEADLINE: <2024-01-15>'' =
     [\<lparr>level = 1, title = ''T'', raw = ''* T'', todo_state = None,
       content = ''SCHEDULED: <2024-01-10Wed>\<newline>DEADLINE: <2024-01-15>''\<rparr>] \<and>
   contains_spec_marker ''SCHEDULED:'' ''SCHEDULED: <2024-01-10Wed>\<newline>DEADLINE: <2024-01-15>'' \<and>
   contains_spec_marker ''DEADLINE:'' ''SCHEDULED: <2024-01-10Wed>\<newline>DEADLINE: <2024-01-15>'' \<and>
   extract_scheduled_items ''* T\<newline>SCHEDULED: <2024-01-10Wed>\<newline>DEADLINE: <2024-01-15>'' =
     [\<lparr>item_type = ''deadline'', item_date = ''2024-01-15'', item_title = ''T'',
       item_todo_state = None, item_level = 1\<rparr>]"
proof -
  let ?c = "''SCHEDULED: <2024-01-10Wed>\<newline>DEADLINE: <2024-01-15>''"
  let ?h = "\<lparr>level = 1, title = ''T'', raw = ''* T'', todo_state = None, content = ?c\<rparr>"
  have e: "extract_headings ''* T\<newline>SCHEDULED: <2024-01-10Wed>\<newline>DEADLINE: <2024-01-15>'' = [?h]"
    by (simp add: parse_eval)
  have d1: "iso_date ''2024-01-10''"
    by (simp add: date_shape_iso [symmetric] is_digit_def)
  have d2: "iso_date ''2024-01-15''"
    by (simp add: date_shape_iso [symmetric] is_digit_def)
  have sp: "is_space CHR '' ''" by (simp add: is_space_def)
  have m1: "marker_text ''SCHEDULED:'' ?c ''2024-01-10''"
    unfolding marker_text_def
    by (intro exI [of _ "'' ''"] exI [of _ "''Wed''"] exI [of _ "''\<newline>DEADLINE: <2024-01-15>''"])
      (simp add: d1 sp)
  have m2: "marker_text ''DEADLINE:'' (drop 27 ?c) ''2024-01-15''"
    unfolding marker_text_def
    by (intro exI [of _ "'' ''"] exI [of _ "[]"] exI [of _ "[]"]) (simp add: d2 sp)
  have a: "contains_spec_marker ''SCHEDULED:'' ?c"
    unfolding contains_spec_marker_def
    by (intro exI [of _ 0] exI [of _ "''2024-01-10''"]) (simp add: m1)
  have b: "contains_spec_marker ''DEADLINE:'' ?c"
    unfolding contains_spec_marker_def
    by (intro exI [of _ 27] exI [of _ "''2024-01-15''"] conjI m2) simp
  have s: "marker_search ''SCHEDULED:'' ?c = None"
    by (simp add: marker_eval)
  have d: "marker_search ''DEADLINE:'' ?c = Some ''2024-01-15''"
    by (simp add: marker_eval)
  have st: "scheduled_step [] ?h = [make_item ''deadline'' ''2024-01-15'' ?h]"
    by (simp add: scheduled_step_def s d)
  have x: "extract_scheduled_items ''* T\<newline>SCHEDULED: <2024-01-10Wed>\<newline>DEADLINE: <2024-01-15>'' =
     [\<lparr>item_type = ''deadline'', item_date = ''2024-01-15'', item_title = ''T'',
       item_todo_state = None, item_level = 1\<rparr>]"
    unfolding extract_scheduled_items_def e scheduled_items_of_def foldl_Cons foldl_Nil st
      make_item_def
    by simp
  show ?thesis by (rule conjI [OF e conjI [OF a conjI [OF b x]]])
qed

section \<open>The loops of modify_heading\<close>

lemma find_target_Some:
  "find_target i hs t = Some (k, h) \<Longrightarrow> find_heading hs t = Some h \<and> title h = t \<and> h \<in> set hs"
  by (induction hs arbitrary: i) (auto split: if_splits)



lemma find_line_number_Some:
  "find_line_number i ls t = Some n \<Longrightarrow>
     i \<le> n \<and> n - i < length ls \<and> line_selected t (ls ! (n - i)) \<and>
     (\<forall>k<n - i. \<not> line_selected t (ls ! k))"
proof (induction ls arbitrary: i)
  case Nil
  then show ?case by simp
next
  case (Cons l ls)
  show ?case
  proof (cases "line_selected t l")
    case True
    with Cons.prems show ?thesis by simp
  next
    case False
    with Cons.prems have r: "find_line_number (Suc i) ls t = Some n" by simp
    from Cons.IH [OF r] have ih: "Suc i \<le> n" "n - Suc i < length ls"
      "line_selected t (ls ! (n - Suc i))" "\<forall>k<n - Suc i. \<not> line_selected t (ls ! k)"
      by blast+
    from ih(1) have e: "n - i = Suc (n - Suc i)" by simp
    have "\<forall>k<n - i. \<not> line_selected t ((l # ls) ! k)"
    proof (intro allI impI)
      fix k assume k: "k < n - i"
      show "\<not> line_selected t ((l # ls) ! k)"
      proof (cases k)
        case 0
        with False show ?thesis by simp
      next
        case (Suc j)
        with k e have "j < n - Suc i" by simp
        with ih(4) Suc show ?thesis by simp
      qed
    qed
    with ih e show ?thesis by simp
  qed
qed

lemma find_end_from_bounds:
  "i \<le> find_end_from i ls \<and> find_end_from i ls \<le> i + length ls"
proof (induction ls arbitrary: i)
  case Nil
  show ?case by simp
next
  case (Cons l ls)
  from Cons.IH [of "Suc i"] show ?case by simp
qed

lemma find_end_from_before:
  "k < find_end_from i ls - i \<Longrightarrow> heading_match (ls ! k) = None"
proof (induction ls arbitrary: i k)
  case Nil
  then show ?case by simp
next
  case (Cons l ls)
  show ?case
  proof (cases "heading_match l = None")
    case False
    with Cons.prems show ?thesis by simp
  next
    case True
    show ?thesis
    proof (cases k)
      case 0
      with True show ?thesis by simp
    next
      case (Suc j)
      from find_end_from_bounds [of "Suc i" ls] have "Suc i \<le> find_end_from (Suc i) ls" by simp
      with Cons.prems True Suc have "j < find_end_from (Suc i) ls - Suc i" by simp
      from Cons.IH [OF this] Suc show ?thesis by simp
    qed
  qed
qed

lemma find_end_from_at:
  "find_end_from i ls < i + length ls \<Longrightarrow> heading_match (ls ! (find_end_from i ls - i)) \<noteq> None"
proof (induction ls arbitrary: i)
  case Nil
  then show ?case by simp
next
  case (Cons l ls)
  show ?case
  proof (cases "heading_match l = None")
    case False
    then show ?thesis by simp
  next
    case True
    from find_end_from_bounds [of "Suc i" ls] have b: "Suc i \<le> find_end_from (Suc i) ls" by simp
    from Cons.prems True have "find_end_from (Suc i) ls < Suc i + length ls" by simp
    from Cons.IH [OF this] have "heading_match (ls ! (find_end_from (Suc i) ls - Suc i)) \<noteq> None" .
    moreover from b have "find_end_from (Suc i) ls - i = Suc (find_end_from (Suc i) ls - Suc i)"
      by simp
    ultimately show ?thesis using True by simp
  qed
qed

lemma find_end_line_props:
  assumes "n < length lines"
  shows "n < find_end_line lines n" and "find_end_line lines n \<le> length lines"
    and "\<forall>k. n < k \<and> k < find_end_line lines n \<longrightarrow> heading_match (lines ! k) = None"
    and "find_end_line lines n < length lines \<longrightarrow>
           heading_match (lines ! find_end_line lines n) \<noteq> None"
proof -
  let ?ls = "drop (n + 1) lines"
  let ?e = "find_end_from (n + 1) ?ls"
  have e: "find_end_line lines n = ?e" by (simp add: find_end_line_def)
  from find_end_from_bounds [of "n + 1" ?ls] assms
  have b: "n + 1 \<le> ?e" "?e \<le> length lines" by (simp, simp, arith)
  from b show "n < find_end_line lines n" "find_end_line lines n \<le> length lines"
    by (simp_all add: e)
  show "\<forall>k. n < k \<and> k < find_end_line lines n \<longrightarrow> heading_match (lines ! k) = None"
  proof (intro allI impI)
    fix k assume k: "n < k \<and> k < find_end_line lines n"
    then have "k - (n + 1) < ?e - (n + 1)" by (simp add: e) arith
    from find_end_from_before [OF this] have "heading_match (?ls ! (k - (n + 1))) = None" .
    moreover from k b have "?ls ! (k - (n + 1)) = lines ! k" by (simp add: e)
    ultimately show "heading_match (lines ! k) = None" by simp
  qed
  show "find_end_line lines n < length lines \<longrightarrow>
           heading_match (lines ! find_end_line lines n) \<noteq> None"
  proof
    assume "find_end_line lines n < length lines"
    with assms have "?e < n + 1 + length ?ls" by (simp add: e)
    from find_end_from_at [OF this] have "heading_match (?ls ! (?e - (n + 1))) \<noteq> None" .
    moreover from b have "?ls ! (?e - (n + 1)) = lines ! ?e" by simp
    ultimately show "heading_match (lines ! find_end_line lines n) \<noteq> None" by (simp add: e)
  qed
qed

text \<open>What a successful call of \<open>modify_lines\<close> computed on the way.\<close>

lemma modify_lines_Inr:
  assumes "modify_lines p text t nt nc nts = Inr new_lines"
  shows "\<exists>i target n.
           find_target 0 (extract_headings text) t = Some (i, target) \<and>
           find_line_number 0 (splitlines text) t = Some n \<and>
           new_lines = take n (splitlines text) @ [build_heading_line target nt nts]
             @ splitlines (case nc of Some c \<Rightarrow> c | None \<Rightarrow> content target)
             @ drop (find_end_line (splitlines text) n) (splitlines text)"
  using assms
  by (auto simp: modify_lines_def Let_def split: option.splits prod.splits)

section \<open>The frame of a mutation\<close>

text \<open>
  Claim C2. Whenever \<open>modify_lines\<close> succeeds on the lines of a text, with \<open>n\<close> the
  block-start index found by the second loop and \<open>e\<close> the block-end index found by the
  third, the result is the lines before \<open>n\<close>, the replacement heading line, the
  replacement content lines and the lines from \<open>e\<close> on. The block is not empty and lies
  within the lines; no line strictly inside it is a heading line and the line at \<open>e\<close>, if
  there is one, is. Every line before \<open>n\<close> keeps its place and every line from \<open>e\<close> on
  keeps its content and its order behind the replacement.
\<close>

theorem modify_lines_frame:
  assumes "modify_lines p text t nt nc nts = Inr new_lines"
  shows "\<exists>n e i target hl cl.
           find_target 0 (extract_headings text) t = Some (i, target) \<and>
           hl = build_heading_line target nt nts \<and>
           cl = splitlines (case nc of Some c \<Rightarrow> c | None \<Rightarrow> content target) \<and>
           find_line_number 0 (splitlines text) t = Some n \<and>
           e = find_end_line (splitlines text) n \<and>
           n < e \<and> e \<le> length (splitlines text) \<and>
           new_lines = take n (splitlines text) @ [hl] @ cl @ drop e (splitlines text) \<and>
           length new_lines = n + 1 + length cl + (length (splitlines text) - e) \<and>
           (\<forall>k<n. new_lines ! k = splitlines text ! k) \<and>
           (\<forall>k. e \<le> k \<and> k < length (splitlines text)
              \<longrightarrow> new_lines ! (n + 1 + length cl + (k - e)) = splitlines text ! k) \<and>
           (\<forall>k. n < k \<and> k < e \<longrightarrow> heading_match (splitlines text ! k) = None) \<and>
           (e < length (splitlines text) \<longrightarrow> heading_match (splitlines text ! e) \<noteq> None)"
proof -
  let ?lines = "splitlines text"
  from modify_lines_Inr [OF assms] obtain i target n
    where tg: "find_target 0 (extract_headings text) t = Some (i, target)"
      and n: "find_line_number 0 ?lines t = Some n"
      and nl: "new_lines = take n ?lines @ [build_heading_line target nt nts]
             @ splitlines (case nc of Some c \<Rightarrow> c | None \<Rightarrow> content target)
             @ drop (find_end_line ?lines n) ?lines"
    by blast
  let ?e = "find_end_line ?lines n"
  let ?hl = "build_heading_line target nt nts"
  let ?cl = "splitlines (case nc of Some c \<Rightarrow> c | None \<Rightarrow> content target)"
  from find_line_number_Some [OF n] have nlt: "n < length ?lines" by simp
  note E = find_end_line_props [OF nlt]
  have len: "length new_lines = n + 1 + length ?cl + (length ?lines - ?e)"
    using nlt by (simp add: nl)
  have pre: "\<forall>k<n. new_lines ! k = ?lines ! k"
    using nlt by (simp add: nl nth_append)
  have post: "\<forall>k. ?e \<le> k \<and> k < length ?lines
      \<longrightarrow> new_lines ! (n + 1 + length ?cl + (k - ?e)) = ?lines ! k"
  proof (intro allI impI)
    fix k assume k: "?e \<le> k \<and> k < length ?lines"
    have "new_lines ! (n + 1 + length ?cl + (k - ?e)) =
        ((take n ?lines @ [?hl] @ ?cl) @ drop ?e ?lines) ! (length (take n ?lines @ [?hl] @ ?cl) + (k - ?e))"
      using nlt by (simp add: nl)
    also have "\<dots> = drop ?e ?lines ! (k - ?e)" by (rule nth_append_length_plus)
    also have "\<dots> = ?lines ! k" using k by simp
    finally show "new_lines ! (n + 1 + length ?cl + (k - ?e)) = ?lines ! k" .
  qed
  have "find_target 0 (extract_headings text) t = Some (i, target) \<and>
        ?hl = build_heading_line target nt nts \<and>
        ?cl = splitlines (case nc of Some c \<Rightarrow> c | None \<Rightarrow> content target) \<and>
        find_line_number 0 ?lines t = Some n \<and> ?e = find_end_line ?lines n \<and>
        n < ?e \<and> ?e \<le> length ?lines \<and>
        new_lines = take n ?lines @ [?hl] @ ?cl @ drop ?e ?lines \<and>
        length new_lines = n + 1 + length ?cl + (length ?lines - ?e) \<and>
        (\<forall>k<n. new_lines ! k = ?lines ! k) \<and>
        (\<forall>k. ?e \<le> k \<and> k < length ?lines
           \<longrightarrow> new_lines ! (n + 1 + length ?cl + (k - ?e)) = ?lines ! k) \<and>
        (\<forall>k. n < k \<and> k < ?e \<longrightarrow> heading_match (?lines ! k) = None) \<and>
        (?e < length ?lines \<longrightarrow> heading_match (?lines ! ?e) \<noteq> None)"
    using tg n E nl len pre post by (intro conjI) (assumption | rule refl)+
  then show ?thesis by blast
qed


theorem modify_lines_frame_witness:
  "modify_lines ''f.org''
     ''* TODO Buy milk\<newline>SCHEDULED: <2024-01-10>\<newline>** DONE Sub task\<newline>notes\<newline>* Write report''
     ''Buy milk'' None (Some ''done'') (Some ''DONE'') =
   Inr [''* DONE Buy milk'', ''done'', ''** DONE Sub task'', ''notes'', ''* Write report''] \<and>
   drop 2 [''* DONE Buy milk'', ''done'', ''** DONE Sub task'', ''notes'', ''* Write report''] =
   drop 2 (splitlines
     ''* TODO Buy milk\<newline>SCHEDULED: <2024-01-10>\<newline>** DONE Sub task\<newline>notes\<newline>* Write report'')"
proof -
  let ?doc = "''* TODO Buy milk\<newline>SCHEDULED: <2024-01-10>\<newline>** DONE Sub task\<newline>notes\<newline>* Write report''"
  let ?R = "[''* DONE Buy milk'', ''done'', ''** DONE Sub task'', ''notes'', ''* Write report'']"
  have sl: "splitlines ?doc =
      [''* TODO Buy milk'', ''SCHEDULED: <2024-01-10>'', ''** DONE Sub task'', ''notes'',
       ''* Write report'']"
    by (simp add: splitlines.simps is_linebreak_def)
  have h0: "heading_match ''* TODO Buy milk'' = Some (''*'', ''TODO Buy milk'')"
    by (simp add: heading_match_def is_space_def)
  have h1: "heading_match ''SCHEDULED: <2024-01-10>'' = None"
    by (simp add: heading_match_def)
  have h2: "heading_match ''** DONE Sub task'' = Some (''**'', ''DONE Sub task'')"
    by (simp add: heading_match_def is_space_def)
  have h3: "heading_match ''notes'' = None"
    by (simp add: heading_match_def)
  have h4: "heading_match ''* Write report'' = Some (''*'', ''Write report'')"
    by (simp add: heading_match_def is_space_def)
  have ln: "find_line_number 0 (splitlines ?doc) ''Buy milk'' = Some 0"
    by (simp add: sl line_selected_def h0 suffix_to_prefix)
  have en: "find_end_line (splitlines ?doc) 0 = 2"
    by (simp add: sl find_end_line_def h1 h2)
  have tm1: "todo_match ''TODO Buy milk'' = Some (''TODO'', ''Buy milk'')"
    by (simp add: todo_match_def todo_tokens_def is_space_def)
  have tm2: "todo_match ''DONE Sub task'' = Some (''DONE'', ''Sub task'')"
    by (simp add: todo_match_def todo_tokens_def is_space_def)
  have tm3: "todo_match ''Write report'' = None"
    by (simp add: todo_match_def todo_tokens_def)
  have eh: "extract_headings ?doc =
      [\<lparr>level = 1, title = ''Buy milk'', raw = ''* TODO Buy milk'', todo_state = Some ''TODO'',
        content = ''SCHEDULED: <2024-01-10>''\<rparr>,
       \<lparr>level = 2, title = ''Sub task'', raw = ''** DONE Sub task'', todo_state = Some ''DONE'',
        content = ''notes''\<rparr>,
       \<lparr>level = 1, title = ''Write report'', raw = ''* Write report'', todo_state = None,
        content = []\<rparr>]"
    by (simp add: extract_headings_closed_form sl h0 h1 h2 h3 h4 new_heading_def tm1 tm2 tm3
        close_heading_def)
  have m: "modify_lines ''f.org'' ?doc ''Buy milk'' None (Some ''done'') (Some ''DONE'') = Inr ?R"
    by (simp add: modify_lines_def eh ln en build_heading_line_def)
      (simp add: sl splitlines.simps is_linebreak_def)
  from modify_lines_frame [OF m] obtain n e hl cl
    where n: "find_line_number 0 (splitlines ?doc) ''Buy milk'' = Some n"
      and e: "e = find_end_line (splitlines ?doc) n"
      and r: "?R = take n (splitlines ?doc) @ [hl] @ cl @ drop e (splitlines ?doc)"
      and l: "length ?R = n + 1 + length cl + (length (splitlines ?doc) - e)"
    by blast
  from n ln have n0: "n = 0" by simp
  from e en n0 have e2: "e = 2" by simp
  from l n0 e2 have "length cl = 1" by (simp add: sl)
  with r n0 have "drop 2 ?R = drop e (splitlines ?doc)" by simp
  with e2 have "drop 2 ?R = drop 2 (splitlines ?doc)" by simp
  with m show ?thesis by simp
qed

section \<open>The replacement heading line\<close>

text \<open>
  Claim C8, as the code has it. On every successful mutation the line put at the
  block-start index is: as many stars as the level of the target, which is the first
  parsed heading whose title is the requested one, then one space, then the effective
  todo state and one space when that state is present and not the empty string, then the
  effective title, which is the override when one is given and the requested title
  otherwise. The effective todo state is the override when one is given and the todo
  state of the target otherwise: without an override the existing token is kept.
\<close>

theorem modify_heading_line:
  assumes "modify_lines p text t nt nc nts = Inr new_lines"
  shows "\<exists>n i target.
           find_line_number 0 (splitlines text) t = Some n \<and>
           find_target 0 (extract_headings text) t = Some (i, target) \<and>
           title target = t \<and> n < length new_lines \<and>
           new_lines ! n =
             replicate (level target) (CHR ''*'') @ '' '' @
             (case (case nts of Some s \<Rightarrow> Some s | None \<Rightarrow> todo_state target) of
                Some s \<Rightarrow> if s = [] then [] else s @ '' ''
              | None \<Rightarrow> []) @
             (case nt of Some s \<Rightarrow> s | None \<Rightarrow> t)"
proof -
  let ?lines = "splitlines text"
  from modify_lines_Inr [OF assms] obtain i target n
    where tg: "find_target 0 (extract_headings text) t = Some (i, target)"
      and n: "find_line_number 0 ?lines t = Some n"
      and nl: "new_lines = take n ?lines @ [build_heading_line target nt nts]
             @ splitlines (case nc of Some c \<Rightarrow> c | None \<Rightarrow> content target)
             @ drop (find_end_line ?lines n) ?lines"
    by blast
  from find_target_Some [OF tg] have tt: "title target = t" by simp
  from find_line_number_Some [OF n] have nlt: "n < length ?lines" by simp
  then have ln: "length (take n ?lines) = n" by simp
  have at: "new_lines ! n = build_heading_line target nt nts"
    using nlt by (simp add: nl nth_append)
  have len: "n < length new_lines" using nlt by (simp add: nl)
  have bl: "build_heading_line target nt nts =
      replicate (level target) (CHR ''*'') @ '' '' @
        (case (case nts of Some s \<Rightarrow> Some s | None \<Rightarrow> todo_state target) of
           Some s \<Rightarrow> if s = [] then [] else s @ '' ''
         | None \<Rightarrow> []) @
        (case nt of Some s \<Rightarrow> s | None \<Rightarrow> t)"
    by (simp add: build_heading_line_def tt split: option.splits)
  from n tg tt len at bl show ?thesis by simp
qed

text \<open>
  The claim as stated fails on the one-line text \<open>* TODO Buy milk\<close>: with no override
  at all the replacement line still carries the token \<open>TODO\<close>.
\<close>

theorem modify_keeps_todo_counterexample:
  "modify_lines ''f.org'' ''* TODO Buy milk'' ''Buy milk'' None None None =
     Inr [''* TODO Buy milk'']"
proof -
  have sl: "splitlines ''* TODO Buy milk'' = [''* TODO Buy milk'']"
    by (simp add: splitlines.simps is_linebreak_def)
  have h0: "heading_match ''* TODO Buy milk'' = Some (''*'', ''TODO Buy milk'')"
    by (simp add: heading_match_def is_space_def)
  have tm: "todo_match ''TODO Buy milk'' = Some (''TODO'', ''Buy milk'')"
    by (simp add: todo_match_def todo_tokens_def is_space_def)
  have eh: "extract_headings ''* TODO Buy milk'' =
      [\<lparr>level = 1, title = ''Buy milk'', raw = ''* TODO Buy milk'', todo_state = Some ''TODO'',
        content = []\<rparr>]"
    by (simp add: extract_headings_closed_form sl h0 new_heading_def tm close_heading_def)
  have sel: "line_selected ''Buy milk'' ''* TODO Buy milk''"
    by (simp add: line_selected_def h0 suffix_to_prefix)
  show ?thesis
    by (simp add: modify_lines_def eh sl sel build_heading_line_def find_end_line_def
        splitlines.simps(1))
qed

theorem modify_heading_line_witness:
  "modify_lines ''f.org'' ''** TODO Buy milk\<newline>notes'' ''Buy milk'' (Some ''Buy oat milk'')
     None (Some ''DONE'') = Inr [''** DONE Buy oat milk'', ''notes''] \<and>
   [''** DONE Buy oat milk'', ''notes''] ! 0 = ''**'' @ '' '' @ ''DONE'' @ '' '' @ ''Buy oat milk''"
proof -
  let ?doc = "''** TODO Buy milk\<newline>notes''"
  let ?R = "[''** DONE Buy oat milk'', ''notes'']"
  let ?h = "\<lparr>level = 2, title = ''Buy milk'', raw = ''** TODO Buy milk'',
    todo_state = Some ''TODO'', content = ''notes''\<rparr>"
  have sl: "splitlines ?doc = [''** TODO Buy milk'', ''notes'']"
    by (simp add: splitlines.simps is_linebreak_def)
  have h0: "heading_match ''** TODO Buy milk'' = Some (''**'', ''TODO Buy milk'')"
    by (simp add: heading_match_def is_space_def)
  have h1: "heading_match ''notes'' = None"
    by (simp add: heading_match_def)
  have tm: "todo_match ''TODO Buy milk'' = Some (''TODO'', ''Buy milk'')"
    by (simp add: todo_match_def todo_tokens_def is_space_def)
  have eh: "extract_headings ?doc = [?h]"
    by (simp add: extract_headings_closed_form sl h0 h1 new_heading_def tm close_heading_def)
  have sel: "line_selected ''Buy milk'' ''** TODO Buy milk''"
    by (simp add: line_selected_def h0 suffix_to_prefix)
  have ln: "find_line_number 0 (splitlines ?doc) ''Buy milk'' = Some 0"
    by (simp add: sl sel)
  have m: "modify_lines ''f.org'' ?doc ''Buy milk'' (Some ''Buy oat milk'') None (Some ''DONE'')
      = Inr ?R"
    by (simp add: modify_lines_def eh sel build_heading_line_def find_end_line_def sl h1
        numeral_2_eq_2 splitlines.simps is_linebreak_def)
  from modify_heading_line [OF m] obtain n i target
    where n: "find_line_number 0 (splitlines ?doc) ''Buy milk'' = Some n"
      and tg: "find_target 0 (extract_headings ?doc) ''Buy milk'' = Some (i, target)"
      and at: "?R ! n = replicate (level target) (CHR ''*'') @ '' '' @
             (case (case Some ''DONE'' of Some s \<Rightarrow> Some s | None \<Rightarrow> todo_state target) of
                Some s \<Rightarrow> if s = [] then [] else s @ '' ''
              | None \<Rightarrow> []) @
             (case Some ''Buy oat milk'' of Some s \<Rightarrow> s | None \<Rightarrow> ''Buy milk'')"
    by blast
  from n ln have n0: "n = 0" by simp
  from tg have "target = ?h" by (simp add: eh)
  with at n0 have "?R ! 0 = ''**'' @ '' '' @ ''DONE'' @ '' '' @ ''Buy oat milk''"
    by (simp add: numeral_2_eq_2)
  with m show ?thesis by blast
qed

section \<open>Selecting the block start\<close>

lemma criterion_line_selected: "criterion_line t l \<Longrightarrow> line_selected t l"
  by (auto simp: criterion_line_def line_selected_def suffix_def split: option.splits)





section \<open>Putting a document together again\<close>

lemma join_nl_Cons: "join_nl (x # xs) = (if xs = [] then x else x @ LF # join_nl xs)"
  by (cases xs) simp_all

lemma join_nl_append:
  "xs \<noteq> [] \<Longrightarrow> ys \<noteq> [] \<Longrightarrow> join_nl (xs @ ys) = join_nl xs @ LF # join_nl ys"
proof (induction xs)
  case Nil
  then show ?case by simp
next
  case (Cons x xs)
  show ?case
  proof (cases "xs = []")
    case True
    with Cons.prems show ?thesis by (simp add: join_nl_Cons)
  next
    case False
    with Cons show ?thesis by (simp add: join_nl_Cons)
  qed
qed

lemma join_nl_empty: "join_nl xs = [] \<longleftrightarrow> xs = [] \<or> xs = [[]]"
  by (cases xs) (auto simp: join_nl_Cons)

lemma headings_from_dropWhile:
  "headings_from (dropWhile (\<lambda>x. heading_match x = None) ls) = headings_from ls"
  by (induction ls) simp_all

lemma headings_from_Nil_iff:
  "headings_from ls = [] \<longleftrightarrow> dropWhile (\<lambda>x. heading_match x = None) ls = []"
  by (induction ls) (auto split: option.splits)

lemma reconstruct_Cons:
  "reconstruct (h # hs) =
     (if hs = [] then heading_block h else heading_block h @ LF # reconstruct hs)"
  by (simp add: reconstruct_def join_nl_Cons)

lemma reconstruct_headings_from:
  "no_blank_only_block ls \<Longrightarrow>
     reconstruct (headings_from ls) = join_nl (dropWhile (\<lambda>x. heading_match x = None) ls)"
proof (induction ls)
  case Nil
  show ?case by (simp add: reconstruct_def)
next
  case (Cons l ls)
  let ?nh = "\<lambda>x. heading_match x = None"
  from Cons.prems have nb: "no_blank_only_block ls" by simp
  note ih = Cons.IH [OF nb]
  show ?case
  proof (cases "heading_match l")
    case None
    then show ?thesis using ih by simp
  next
    case (Some g)
    obtain s f where g: "g = (s, f)" by (cases g)
    let ?T = "takeWhile ?nh ls"
    let ?D = "dropWhile ?nh ls"
    let ?h = "close_heading (new_heading l s f) ?T"
    from Cons.prems Some have T: "?T \<noteq> [[]]" by simp
    have hf: "headings_from (l # ls) = ?h # headings_from ls" by (simp add: Some g)
    have raw: "raw ?h = l" by (simp add: close_heading_def raw_new_heading)
    have con: "content ?h = join_nl ?T" by (simp add: close_heading_def)
    have "heading_block ?h = (if join_nl ?T = [] then l else l @ LF # join_nl ?T)"
      by (simp only: heading_block_def raw con)
    moreover have "join_nl ?T = [] \<longleftrightarrow> ?T = []"
      using T by (simp add: join_nl_empty)
    ultimately have blk: "heading_block ?h = join_nl (l # ?T)"
      by (simp add: join_nl_Cons)
    have split: "l # ls = (l # ?T) @ ?D" by simp
    have rhs: "dropWhile ?nh (l # ls) = (l # ?T) @ ?D" by (simp add: Some)
    show ?thesis
    proof (cases "?D = []")
      case True
      then have "headings_from ls = []" by (simp add: headings_from_Nil_iff)
      then show ?thesis unfolding hf rhs by (simp add: reconstruct_Cons blk True)
    next
      case False
      then have ne: "headings_from ls \<noteq> []" by (simp add: headings_from_Nil_iff)
      have "join_nl ((l # ?T) @ ?D) = join_nl (l # ?T) @ LF # join_nl ?D"
        using False by (intro join_nl_append) simp_all
      then show ?thesis unfolding hf rhs using ne ih by (simp add: reconstruct_Cons blk)
    qed
  qed
qed

text \<open>
  Claim C1, as the code has it. The parser works on the lines of \<open>splitlines\<close> and joins
  content lines with LF, so what can be put together again from the headings is the text
  with every line break turned into one LF and no break at the end. For a text whose
  first line is a heading line and in which no heading is followed by a single empty
  line as its whole content, the raw heading lines followed by their contents give
  exactly that text; they give the original, character by character, when the original
  already has this form.
\<close>

theorem reconstruct_round_trip:
  assumes "splitlines text = l # ls" and "heading_match l \<noteq> None"
    and "no_blank_only_block (splitlines text)"
  shows "reconstruct (extract_headings text) = join_nl (splitlines text) \<and>
         (join_nl (splitlines text) = text \<longrightarrow> reconstruct (extract_headings text) = text)"
proof -
  have "dropWhile (\<lambda>x. heading_match x = None) (splitlines text) = splitlines text"
    using assms(1,2) by auto
  with reconstruct_headings_from [OF assms(3)]
  have "reconstruct (extract_headings text) = join_nl (splitlines text)"
    by (simp add: extract_headings_closed_form)
  then show ?thesis by simp
qed

theorem reconstruct_round_trip_witness:
  "reconstruct (extract_headings ''* TODO Buy milk\<newline>notes\<newline>** Sub\<newline>* Report'') =
     ''* TODO Buy milk\<newline>notes\<newline>** Sub\<newline>* Report''"
proof -
  let ?doc = "''* TODO Buy milk\<newline>notes\<newline>** Sub\<newline>* Report''"
  have sl: "splitlines ?doc = ''* TODO Buy milk'' # [''notes'', ''** Sub'', ''* Report'']"
    by (simp add: splitlines.simps is_linebreak_def)
  have h0: "heading_match ''* TODO Buy milk'' = Some (''*'', ''TODO Buy milk'')"
    by (simp add: heading_match_def is_space_def)
  have h1: "heading_match ''notes'' = None" by (simp add: heading_match_def)
  have h2: "heading_match ''** Sub'' = Some (''**'', ''Sub'')"
    by (simp add: heading_match_def is_space_def)
  have h3: "heading_match ''* Report'' = Some (''*'', ''Report'')"
    by (simp add: heading_match_def is_space_def)
  have nb: "no_blank_only_block (splitlines ?doc)"
    by (simp add: sl h0 h1 h2 h3)
  have j: "join_nl (splitlines ?doc) = ?doc"
    by (simp add: sl)
  from reconstruct_round_trip [OF sl _ nb] h0 j show ?thesis by simp
qed

text \<open>
  The claim as stated fails: the two texts \<open>* A\<close>, empty line, \<open>* B\<close> and \<open>* A\<close>, \<open>* B\<close>
  differ, both start with a heading line, and the parser gives the same headings for
  both, so that no way of putting headings together again can give back both. Nor is a
  line break at the end of a text kept.
\<close>

theorem reconstruct_round_trip_counterexample:
  "extract_headings ''* A\<newline>\<newline>* B'' = extract_headings ''* A\<newline>* B'' \<and>
   ''* A\<newline>\<newline>* B'' \<noteq> ''* A\<newline>* B'' \<and>
   reconstruct (extract_headings ''* A\<newline>\<newline>* B'') \<noteq> ''* A\<newline>\<newline>* B'' \<and>
   reconstruct (extract_headings ''* A\<newline>'') \<noteq> ''* A\<newline>''"
proof -
  let ?hA = "\<lparr>level = 1, title = ''A'', raw = ''* A'', todo_state = None, content = []\<rparr>"
  let ?hB = "\<lparr>level = 1, title = ''B'', raw = ''* B'', todo_state = None, content = []\<rparr>"
  have e1: "extract_headings ''* A\<newline>\<newline>* B'' = [?hA, ?hB]"
    by (simp add: parse_eval)
  have e2: "extract_headings ''* A\<newline>* B'' = [?hA, ?hB]"
    by (simp add: parse_eval)
  have e3: "extract_headings ''* A\<newline>'' = [?hA]"
    by (simp add: parse_eval)
  have r1: "reconstruct [?hA, ?hB] = ''* A\<newline>* B''"
    by (simp add: reconstruct_def heading_block_def)
  have r3: "reconstruct [?hA] = ''* A''"
    by (simp add: reconstruct_def heading_block_def)
  show ?thesis unfolding e1 e2 e3 r1 r3 by simp
qed

section \<open>Line breaks at the end of the written text\<close>

lemma trailing_breaks_append:
  "trailing_breaks (x @ y) =
     (if \<forall>c\<in>set y. is_linebreak c then length y + trailing_breaks x else trailing_breaks y)"
  by (simp add: trailing_breaks_def takeWhile_append)

lemma trailing_breaks_all: "\<forall>c\<in>set s. is_linebreak c \<Longrightarrow> trailing_breaks s = length s"
proof -
  assume "\<forall>c\<in>set s. is_linebreak c"
  then have "takeWhile is_linebreak (rev s) = rev s" by (simp add: takeWhile_eq_all_conv)
  then show ?thesis unfolding trailing_breaks_def by (simp only: length_rev)
qed

lemma trailing_breaks_Cons_nonbreak:
  "\<not> is_linebreak c \<Longrightarrow> trailing_breaks (c # s) = trailing_breaks s"
  using trailing_breaks_append [of "[c]" s]
  by (auto simp: trailing_breaks_all) (simp add: trailing_breaks_def)

lemma trailing_breaks_Cons_break:
  "is_linebreak c \<Longrightarrow>
     trailing_breaks (c # s) = (if \<forall>d\<in>set s. is_linebreak d then Suc (length s) else trailing_breaks s)"
  using trailing_breaks_append [of "[c]" s] by (simp add: trailing_breaks_def)

lemma trailing_breaks_pos: "s \<noteq> [] \<Longrightarrow> is_linebreak (last s) \<Longrightarrow> 0 < trailing_breaks s"
  by (cases s rule: rev_cases) (simp_all add: trailing_breaks_def)

lemma splitlines_Nil_iff: "splitlines s = [] \<longleftrightarrow> s = []"
  by (cases s) (simp_all add: splitlines.simps split: list.splits)

lemma join_splitlines_nonbreak:
  "\<not> is_linebreak c \<Longrightarrow> join_nl (splitlines (c # cs)) = c # join_nl (splitlines cs)"
  by (cases "splitlines cs") (simp_all add: splitlines.simps join_nl_Cons)

lemma join_splitlines_break:
  "is_linebreak c \<Longrightarrow>
     join_nl (splitlines (c # cs)) =
       (let r = (if c = CR \<and> cs \<noteq> [] \<and> hd cs = LF then tl cs else cs)
        in if r = [] then [] else LF # join_nl (splitlines r))"
  by (simp add: splitlines.simps join_nl_Cons splitlines_Nil_iff Let_def)

lemma LF_break: "is_linebreak LF"
  by (simp add: is_linebreak_def)

lemma join_splitlines_keeps:
  "x \<in> set s \<Longrightarrow> \<not> is_linebreak x \<Longrightarrow> x \<in> set (join_nl (splitlines s))"
proof (induction s rule: splitlines.induct)
  case 1
  then show ?case by simp
next
  case (2 c cs)
  note IH = "2.IH" and xin = "2.prems"(1) and xnb = "2.prems"(2)
  show ?case
  proof (cases "is_linebreak c")
    case False
    with 2 show ?thesis by (auto simp: join_splitlines_nonbreak)
  next
    case True
    let ?r = "if c = CR \<and> cs \<noteq> [] \<and> hd cs = LF then tl cs else cs"
    from xin xnb True have "x \<in> set cs" by auto
    moreover have "set cs \<subseteq> insert LF (set ?r)" by (cases cs) auto
    ultimately have xr: "x \<in> set ?r" using xnb LF_break by auto
    then have "?r \<noteq> []" by auto
    moreover from IH(1) [OF True xr xnb]
    have "x \<in> set (join_nl (splitlines ?r))" .
    ultimately show ?thesis
      by (simp only: join_splitlines_break [OF True] Let_def if_False list.set) simp
  qed
qed

lemma join_splitlines_shorter:
  "s \<noteq> [] \<Longrightarrow> is_linebreak (last s) \<Longrightarrow>
     trailing_breaks (join_nl (splitlines s)) < trailing_breaks s"
proof (induction s rule: splitlines.induct)
  case 1
  then show ?case by simp
next
  case (2 c cs)
  note IH = "2.IH" and ne = "2.prems"(1) and lst = "2.prems"(2)
  show ?case
  proof (cases "is_linebreak c")
    case False
    with lst have cs: "cs \<noteq> []" by (cases cs) auto
    with lst have "is_linebreak (last cs)" by simp
    from IH(2) [OF False cs this] False show ?thesis
      by (simp add: join_splitlines_nonbreak trailing_breaks_Cons_nonbreak)
  next
    case True
    define r where "r = (if c = CR \<and> cs \<noteq> [] \<and> hd cs = LF then tl cs else cs)"
    define Y where "Y = join_nl (splitlines r)"
    have jb: "join_nl (splitlines (c # cs)) = (if r = [] then [] else LF # Y)"
      unfolding r_def Y_def using join_splitlines_break [OF True, of cs]
      by (simp only: Let_def)
    from trailing_breaks_pos [OF ne lst] have pos: "0 < trailing_breaks (c # cs)" .
    show ?thesis
    proof (cases "r = []")
      case r: True
      then have "join_nl (splitlines (c # cs)) = []" by (simp add: jb)
      moreover have "trailing_breaks [] = 0" by (simp add: trailing_breaks_def)
      ultimately show ?thesis using pos by (simp only:)
    next
      case r: False
      have "\<exists>pre. c # cs = pre @ r \<and> pre \<noteq> [] \<and> (\<forall>d\<in>set pre. is_linebreak d)"
      proof (cases "c = CR \<and> cs \<noteq> [] \<and> hd cs = LF")
        case c: True
        then obtain ds where "cs = LF # ds" by (cases cs) auto
        with c have "c # cs = [c, LF] @ r" by (simp add: r_def)
        moreover have "\<forall>d\<in>set [c, LF]. is_linebreak d" using True LF_break by simp
        ultimately show ?thesis by blast
      next
        case c: False
        then have "r = cs" unfolding r_def by (simp only: if_False)
        then have "c # cs = [c] @ r" by simp
        moreover have "\<forall>d\<in>set [c]. is_linebreak d" using True by simp
        ultimately show ?thesis by blast
      qed
      then obtain pre where pre: "c # cs = pre @ r" "pre \<noteq> []" "\<forall>d\<in>set pre. is_linebreak d"
        by blast
      from r have "last (pre @ r) = last r" by (rule last_appendR)
      with pre(1) have "last (c # cs) = last r" by (simp only:)
      with lst have lb: "is_linebreak (last r)" by simp
      from IH(1) [OF True, folded r_def, OF r lb] have ih: "trailing_breaks Y < trailing_breaks r"
        by (simp only: Y_def)
      have tp: "trailing_breaks pre = length pre" using pre(3) by (rule trailing_breaks_all)
      have tt: "trailing_breaks (c # cs) =
          (if \<forall>d\<in>set r. is_linebreak d then length r + length pre else trailing_breaks r)"
        by (simp only: pre(1) trailing_breaks_append tp)
      have j: "join_nl (splitlines (c # cs)) = LF # Y"
        using r by (simp add: jb)
      have ty: "trailing_breaks (LF # Y) =
          (if \<forall>d\<in>set Y. is_linebreak d then Suc (length Y) else trailing_breaks Y)"
        by (rule trailing_breaks_Cons_break [OF LF_break])
      show ?thesis
      proof (cases "\<forall>d\<in>set Y. is_linebreak d")
        case all: True
        have allr: "\<forall>d\<in>set r. is_linebreak d"
        proof (rule ccontr)
          assume "\<not> (\<forall>d\<in>set r. is_linebreak d)"
          then obtain d where d: "d \<in> set r" "\<not> is_linebreak d" by blast
          from join_splitlines_keeps [OF d] have "d \<in> set Y" by (simp only: Y_def)
          with all d(2) show False by blast
        qed
        from all have y: "trailing_breaks Y = length Y" by (rule trailing_breaks_all)
        from allr have rr: "trailing_breaks r = length r" by (rule trailing_breaks_all)
        from pre(2) have p: "0 < length pre" by simp
        have 1: "trailing_breaks (LF # Y) = Suc (length Y)" using all by (auto simp: ty)
        have 2: "trailing_breaks (c # cs) = length r + length pre"
          using allr by (auto simp: tt)
        from ih y rr p show ?thesis unfolding j 1 2 by arith
      next
        case some: False
        have 1: "trailing_breaks (LF # Y) = trailing_breaks Y" using some by (auto simp: ty)
        have "trailing_breaks r \<le> trailing_breaks (c # cs)"
        proof (cases "\<forall>d\<in>set r. is_linebreak d")
          case True
          then have "trailing_breaks (c # cs) = length r + length pre" by (auto simp: tt)
          moreover from True have "trailing_breaks r = length r" by (rule trailing_breaks_all)
          ultimately show ?thesis by arith
        next
          case False
          then have "trailing_breaks (c # cs) = trailing_breaks r" by (auto simp: tt)
          then show ?thesis by simp
        qed
        with ih show ?thesis unfolding j 1 by arith
      qed
    qed
  qed
qed

lemma set_join_nl: "x \<in> set xs \<Longrightarrow> set x \<subseteq> set (join_nl xs)"
  by (induction xs rule: join_nl.induct) auto

lemma heading_line_star: "heading_match l \<noteq> None \<Longrightarrow> CHR ''*'' \<in> set l"
proof -
  assume "heading_match l \<noteq> None"
  then obtain s f where "heading_match l = Some (s, f)" by auto
  from heading_match_stars [OF this]
  have "takeWhile (\<lambda>c. c = CHR ''*'') l \<noteq> []" by auto
  then obtain x where "x \<in> set (takeWhile (\<lambda>c. c = CHR ''*'') l)"
    by (cases "takeWhile (\<lambda>c. c = CHR ''*'') l") auto
  from set_takeWhileD [OF this] show ?thesis by blast
qed

lemma star_no_break: "\<not> is_linebreak (CHR ''*'')"
  by (simp add: is_linebreak_def)

lemma trailing_breaks_join_suffix:
  assumes "A \<noteq> []" and "D \<noteq> []" and "c \<in> set (join_nl D)" and "\<not> is_linebreak c"
  shows "trailing_breaks (join_nl (A @ D)) = trailing_breaks (join_nl D)"
proof -
  have "join_nl (A @ D) = (join_nl A @ [LF]) @ join_nl D"
    using join_nl_append [OF assms(1,2)] by simp
  moreover have "\<not> (\<forall>d\<in>set (join_nl D). is_linebreak d)" using assms(3,4) by blast
  ultimately show ?thesis by (simp only: trailing_breaks_append if_False)
qed

lemma modify_text_Inr:
  "modify_text p txt t nt nc nts = Inr w \<Longrightarrow>
     \<exists>new_lines. modify_lines p txt t nt nc nts = Inr new_lines \<and> w = join_nl new_lines"
  by (auto simp: modify_text_def split: sum.splits)

lemma modify_heading_Inr:
  "files p = Some txt \<Longrightarrow> modify_heading files p t nt nc nts = (Inr msg, files') \<Longrightarrow>
     \<exists>w. modify_text p txt t nt nc nts = Inr w \<and> files' = files(p \<mapsto> w)"
  by (auto simp: modify_heading_def split: sum.splits)

lemma splitlines_no_break:
  "l \<in> set (splitlines s) \<Longrightarrow> c \<in> set l \<Longrightarrow> \<not> is_linebreak c"
proof (induction s arbitrary: l rule: splitlines.induct)
  case 1
  then show ?case by (simp add: splitlines.simps)
next
  case (2 d ds)
  note IH = "2.IH" and lin = "2.prems"(1) and cin = "2.prems"(2)
  show ?case
  proof (cases "is_linebreak d")
    case True
    define r where "r = (if d = CR \<and> ds \<noteq> [] \<and> hd ds = LF then tl ds else ds)"
    from True have "splitlines (d # ds) = [] # splitlines r"
      unfolding r_def by (simp add: splitlines.simps)
    with lin cin have "l \<in> set (splitlines r)" by auto
    from IH(1) [OF True, folded r_def, OF this cin] show ?thesis .
  next
    case False
    show ?thesis
    proof (cases "splitlines ds")
      case Nil
      with False have "splitlines (d # ds) = [[d]]" by (simp add: splitlines.simps)
      with lin cin False show ?thesis by auto
    next
      case (Cons x xs)
      with False have sp: "splitlines (d # ds) = (d # x) # xs" by (simp add: splitlines.simps)
      show ?thesis
      proof (cases "l \<in> set xs")
        case True
        with Cons have "l \<in> set (splitlines ds)" by simp
        from IH(2) [OF False this cin] show ?thesis .
      next
        case nx: False
        with sp lin have l: "l = d # x" by auto
        show ?thesis
        proof (cases "c = d")
          case True
          with False show ?thesis by simp
        next
          case cd: False
          with l cin have "c \<in> set x" by simp
          moreover from Cons have "x \<in> set (splitlines ds)" by simp
          ultimately show ?thesis using IH(2) [OF False] by blast
        qed
      qed
    qed
  qed
qed

lemma trailing_breaks_snoc_LF: "trailing_breaks (s @ [LF]) = Suc (trailing_breaks s)"
  by (simp add: trailing_breaks_def LF_break)

lemma trailing_breaks_free:
  "l \<noteq> [] \<Longrightarrow> \<forall>c\<in>set l. \<not> is_linebreak c \<Longrightarrow> trailing_breaks (x @ l) = 0"
  by (cases l rule: rev_cases) (simp_all add: trailing_breaks_def)

lemma trailing_empty_lines_snoc:
  "trailing_empty_lines (ls @ [l]) = (if l = [] then Suc (trailing_empty_lines ls) else 0)"
  by (simp add: trailing_empty_lines_def)

lemma trailing_breaks_join_lines:
  assumes "P \<noteq> []" and "\<forall>l\<in>set cl. \<forall>c\<in>set l. \<not> is_linebreak c"
  shows "trailing_breaks (join_nl (P @ cl)) =
           (if \<exists>l\<in>set cl. l \<noteq> [] then trailing_empty_lines cl
            else length cl + trailing_breaks (join_nl P))"
  using assms(2)
proof (induction cl rule: rev_induct)
  case Nil
  show ?case by simp
next
  case (snoc l cl)
  from snoc.prems have free: "\<forall>c\<in>set l. \<not> is_linebreak c"
    and rest: "\<forall>l\<in>set cl. \<forall>c\<in>set l. \<not> is_linebreak c" by simp_all
  from assms(1) have ne: "P @ cl \<noteq> []" by simp
  have j: "join_nl (P @ cl @ [l]) = (join_nl (P @ cl) @ [LF]) @ l"
    using join_nl_append [OF ne, of "[l]"] by simp
  show ?case
  proof (cases "l = []")
    case True
    from j True have "join_nl (P @ cl @ [l]) = join_nl (P @ cl) @ [LF]" by simp
    then have "trailing_breaks (join_nl (P @ cl @ [l])) = Suc (trailing_breaks (join_nl (P @ cl)))"
      by (simp only: trailing_breaks_snoc_LF)
    with snoc.IH [OF rest] True show ?thesis
      by (simp add: trailing_empty_lines_snoc)
  next
    case False
    from trailing_breaks_free [OF False free]
    have "trailing_breaks (join_nl (P @ cl @ [l])) = 0" by (simp only: j)
    with False show ?thesis by (auto simp: trailing_empty_lines_snoc)
  qed
qed

lemma trailing_breaks_heading_line:
  "trailing_breaks (build_heading_line target nt nts) =
     trailing_breaks (case nt of Some s \<Rightarrow> s | None \<Rightarrow> title target)"
proof -
  define ti where "ti = (case nt of Some s \<Rightarrow> s | None \<Rightarrow> title target)"
  have "\<exists>pre. build_heading_line target nt nts = (pre @ '' '') @ ti"
    unfolding ti_def
    by (auto simp: build_heading_line_def Let_def split: option.splits)
  then obtain pre where b: "build_heading_line target nt nts = (pre @ '' '') @ ti" by blast
  have z: "trailing_breaks (pre @ '' '') = 0"
    by (simp add: trailing_breaks_def is_linebreak_def)
  have "trailing_breaks ((pre @ '' '') @ ti) = trailing_breaks ti"
    unfolding trailing_breaks_append [of "pre @ '' ''" ti] z
    by (simp add: trailing_breaks_all)
  with b show ?thesis by (simp only: ti_def)
qed

lemma heading_line_not_all_breaks:
  "\<not> (\<forall>c\<in>set (build_heading_line target nt nts). is_linebreak c)"
proof -
  have "CHR '' '' \<in> set (build_heading_line target nt nts)"
    by (auto simp: build_heading_line_def Let_def split: option.splits)
  moreover have "\<not> is_linebreak (CHR '' '')" by (simp add: is_linebreak_def)
  ultimately show ?thesis by blast
qed

lemma trailing_breaks_join_snoc_heading:
  "trailing_breaks (join_nl (A @ [build_heading_line target nt nts])) =
     trailing_breaks (case nt of Some s \<Rightarrow> s | None \<Rightarrow> title target)"
proof (cases "A = []")
  case True
  then show ?thesis by (simp add: trailing_breaks_heading_line)
next
  case False
  let ?hl = "build_heading_line target nt nts"
  have "join_nl (A @ [?hl]) = (join_nl A @ [LF]) @ ?hl"
    using join_nl_append [OF False, of "[?hl]"] by simp
  then have "trailing_breaks (join_nl (A @ [?hl])) = trailing_breaks ?hl"
    using heading_line_not_all_breaks [of target nt nts]
    by (simp only: trailing_breaks_append if_False)
  then show ?thesis by (simp only: trailing_breaks_heading_line)
qed

lemma trailing_empty_lines_last:
  "cl \<noteq> [] \<Longrightarrow> last cl \<noteq> [] \<Longrightarrow> trailing_empty_lines cl = 0 \<and> (\<exists>l\<in>set cl. l \<noteq> [])"
  by (cases cl rule: rev_cases) (simp_all add: trailing_empty_lines_def)

text \<open>
  Claim C10, as the code has it. The text written back is the new lines joined with LF
  and nothing after the last line. Let the original text end with a line break. When at
  least one line follows the replaced block, or the last line of the replacement content
  is not empty, or there is no replacement content and the title written does not end
  with a line break, the written text ends with fewer line-break characters than the
  original: the last break of the original is gone, and the written text differs from
  the original. When the replaced block runs to the end of the text, the number of line
  breaks at the end of the written text is the number of empty lines at the end of the
  replacement content, if that has a line that is not empty, and otherwise the number of
  its lines plus the number of line breaks at the end of the title written.
\<close>

theorem written_text_loses_final_break:
  assumes "files p = Some text"
    and "modify_heading files p t nt nc nts = (Inr msg, files')"
    and "text \<noteq> []" and "is_linebreak (last text)"
  shows "\<exists>i target n e cl ti new_lines written.
           find_target 0 (extract_headings text) t = Some (i, target) \<and>
           find_line_number 0 (splitlines text) t = Some n \<and>
           e = find_end_line (splitlines text) n \<and>
           cl = splitlines (case nc of Some c \<Rightarrow> c | None \<Rightarrow> content target) \<and>
           ti = (case nt of Some s \<Rightarrow> s | None \<Rightarrow> t) \<and>
           modify_lines p text t nt nc nts = Inr new_lines \<and> written = join_nl new_lines \<and>
           files' p = Some written \<and>
           (e < length (splitlines text) \<or> (cl \<noteq> [] \<and> last cl \<noteq> []) \<or>
            (cl = [] \<and> trailing_breaks ti = 0)
              \<longrightarrow> trailing_breaks written < trailing_breaks text \<and> written \<noteq> text) \<and>
           (e = length (splitlines text)
              \<longrightarrow> trailing_breaks written =
                    (if \<exists>l\<in>set cl. l \<noteq> [] then trailing_empty_lines cl
                     else length cl + trailing_breaks ti))"
proof -
  let ?lines = "splitlines text"
  from modify_heading_Inr [OF assms(1,2)] obtain w
    where w: "modify_text p text t nt nc nts = Inr w" and f: "files' = files(p \<mapsto> w)" by blast
  from modify_text_Inr [OF w] obtain new_lines
    where m: "modify_lines p text t nt nc nts = Inr new_lines" and j: "w = join_nl new_lines"
    by blast
  from modify_lines_Inr [OF m] obtain i target n
    where tg: "find_target 0 (extract_headings text) t = Some (i, target)"
      and ln: "find_line_number 0 ?lines t = Some n"
      and nl: "new_lines = take n ?lines @ [build_heading_line target nt nts]
             @ splitlines (case nc of Some c \<Rightarrow> c | None \<Rightarrow> content target)
             @ drop (find_end_line ?lines n) ?lines"
    by blast
  define e where "e = find_end_line ?lines n"
  define cl where "cl = splitlines (case nc of Some c \<Rightarrow> c | None \<Rightarrow> content target)"
  define ti where "ti = (case nt of Some s \<Rightarrow> s | None \<Rightarrow> t)"
  define hl where "hl = build_heading_line target nt nts"
  from find_target_Some [OF tg] have tt: "title target = t" by simp
  then have ti': "(case nt of Some s \<Rightarrow> s | None \<Rightarrow> title target) = ti"
    by (simp add: ti_def split: option.splits)
  have nl': "new_lines = take n ?lines @ [hl] @ cl @ drop e ?lines"
    using nl by (simp only: e_def cl_def hl_def)
  from find_line_number_Some [OF ln] have nlt: "n < length ?lines" by simp
  note E = find_end_line_props [OF nlt, folded e_def]
  from trailing_breaks_pos [OF assms(3,4)] have pos: "0 < trailing_breaks text" .
  have A: "trailing_breaks w < trailing_breaks text" if lt: "e < length ?lines"
  proof -
    let ?D = "drop e ?lines"
    from lt have D: "?D \<noteq> []" by simp
    from E(4) lt have "heading_match (?lines ! e) \<noteq> None" by blast
    then have "CHR ''*'' \<in> set (?lines ! e)" by (rule heading_line_star)
    moreover from lt have "?lines ! e \<in> set ?D" by (simp add: hd_drop_conv_nth [symmetric])
    ultimately have star: "CHR ''*'' \<in> set (join_nl ?D)" using set_join_nl by blast
    have 1: "trailing_breaks (join_nl ((take n ?lines @ [hl] @ cl) @ ?D)) =
        trailing_breaks (join_nl ?D)"
      by (rule trailing_breaks_join_suffix [OF _ D star star_no_break]) simp
    from E(1) nlt have "take e ?lines \<noteq> []" by (cases ?lines) auto
    from trailing_breaks_join_suffix [OF this D star star_no_break]
    have 2: "trailing_breaks (join_nl ?lines) = trailing_breaks (join_nl ?D)" by simp
    from join_splitlines_shorter [OF assms(3,4)]
    have 3: "trailing_breaks (join_nl ?lines) < trailing_breaks text" .
    from 1 2 3 show ?thesis by (simp add: j nl')
  qed
  have B: "trailing_breaks w =
      (if \<exists>l\<in>set cl. l \<noteq> [] then trailing_empty_lines cl else length cl + trailing_breaks ti)"
    if eq: "e = length ?lines"
  proof -
    from eq have "new_lines = (take n ?lines @ [hl]) @ cl" by (simp add: nl')
    then have wj: "w = join_nl ((take n ?lines @ [hl]) @ cl)" by (simp only: j)
    have free: "\<forall>l\<in>set cl. \<forall>c\<in>set l. \<not> is_linebreak c"
      unfolding cl_def using splitlines_no_break by blast
    have pne: "take n ?lines @ [hl] \<noteq> []" by simp
    have "trailing_breaks w =
        (if \<exists>l\<in>set cl. l \<noteq> [] then trailing_empty_lines cl
         else length cl + trailing_breaks (join_nl (take n ?lines @ [hl])))"
      unfolding wj by (rule trailing_breaks_join_lines [OF pne free])
    moreover have "trailing_breaks (join_nl (take n ?lines @ [hl])) = trailing_breaks ti"
      unfolding hl_def by (simp only: trailing_breaks_join_snoc_heading ti')
    ultimately show ?thesis by (simp only:)
  qed
  have C: "trailing_breaks w < trailing_breaks text \<and> w \<noteq> text"
    if H: "e < length ?lines \<or> (cl \<noteq> [] \<and> last cl \<noteq> []) \<or> (cl = [] \<and> trailing_breaks ti = 0)"
  proof -
    have "trailing_breaks w < trailing_breaks text"
    proof (cases "e < length ?lines")
      case True
      then show ?thesis by (rule A)
    next
      case False
      with E(2) have eq: "e = length ?lines" by simp
      from H False consider "cl \<noteq> []" "last cl \<noteq> []" | "cl = []" "trailing_breaks ti = 0"
        by auto
      then have "trailing_breaks w = 0"
      proof cases
        case 1
        from trailing_empty_lines_last [OF 1] B [OF eq] show ?thesis by simp
      next
        case 2
        with B [OF eq] show ?thesis by simp
      qed
      with pos show ?thesis by simp
    qed
    then show ?thesis by auto
  qed
  from f have fp: "files' p = Some w" by simp
  have c1: "e < length ?lines \<or> (cl \<noteq> [] \<and> last cl \<noteq> []) \<or> (cl = [] \<and> trailing_breaks ti = 0)
      \<longrightarrow> trailing_breaks w < trailing_breaks text \<and> w \<noteq> text"
    using C by (rule impI)
  have c2: "e = length ?lines \<longrightarrow> trailing_breaks w =
      (if \<exists>l\<in>set cl. l \<noteq> [] then trailing_empty_lines cl else length cl + trailing_breaks ti)"
    using B by (rule impI)
  show ?thesis
    by (intro exI [of _ i] exI [of _ target] exI [of _ n] exI [of _ e] exI [of _ cl]
        exI [of _ ti] exI [of _ new_lines] exI [of _ w])
      (rule conjI [OF tg conjI [OF ln conjI [OF e_def conjI [OF cl_def conjI [OF ti_def
        conjI [OF m conjI [OF j conjI [OF fp conjI [OF c1 c2]]]]]]]]])
qed

theorem written_text_loses_final_break_witness:
  "snd (modify_heading [''f.org'' \<mapsto> ''* A\<newline>foo\<newline>* B\<newline>''] ''f.org'' ''A'' None (Some ''bar'') None)
     ''f.org'' = Some ''* A\<newline>bar\<newline>* B'' \<and>
   trailing_breaks ''* A\<newline>bar\<newline>* B'' < trailing_breaks ''* A\<newline>foo\<newline>* B\<newline>'' \<and>
   snd (modify_heading [''f.org'' \<mapsto> ''* X\<newline>* A\<newline>foo\<newline>''] ''f.org'' ''A'' (Some ''A2'') None None)
     ''f.org'' = Some ''* X\<newline>* A2\<newline>foo'' \<and>
   trailing_breaks ''* X\<newline>* A2\<newline>foo'' < trailing_breaks ''* X\<newline>* A\<newline>foo\<newline>'' \<and>
   trailing_breaks ''* X\<newline>* A2\<newline>foo'' = trailing_empty_lines [''foo'']"
proof -
  let ?doc = "''* A\<newline>foo\<newline>* B\<newline>''"
  let ?F = "[''f.org'' \<mapsto> ?doc]"
  let ?W = "''* A\<newline>bar\<newline>* B''"
  let ?doc2 = "''* X\<newline>* A\<newline>foo\<newline>''"
  let ?F2 = "[''f.org'' \<mapsto> ?doc2]"
  let ?W2 = "''* X\<newline>* A2\<newline>foo''"
  have sl: "splitlines ?doc = [''* A'', ''foo'', ''* B'']"
    by (simp add: splitlines.simps is_linebreak_def)
  have sl2: "splitlines ?doc2 = [''* X'', ''* A'', ''foo'']"
    by (simp add: splitlines.simps is_linebreak_def)
  have h0: "heading_match ''* A'' = Some (''*'', ''A'')"
    by (simp add: heading_match_def is_space_def)
  have h1: "heading_match ''foo'' = None" by (simp add: heading_match_def)
  have h2: "heading_match ''* B'' = Some (''*'', ''B'')"
    by (simp add: heading_match_def is_space_def)
  have hx: "heading_match ''* X'' = Some (''*'', ''X'')"
    by (simp add: heading_match_def is_space_def)
  have tmA: "todo_match ''A'' = None" by (simp add: todo_match_def todo_tokens_def)
  have tmB: "todo_match ''B'' = None" by (simp add: todo_match_def todo_tokens_def)
  have tmX: "todo_match ''X'' = None" by (simp add: todo_match_def todo_tokens_def)
  have eh: "extract_headings ?doc =
      [\<lparr>level = 1, title = ''A'', raw = ''* A'', todo_state = None, content = ''foo''\<rparr>,
       \<lparr>level = 1, title = ''B'', raw = ''* B'', todo_state = None, content = []\<rparr>]"
    by (simp add: extract_headings_closed_form sl h0 h1 h2 new_heading_def tmA tmB
        close_heading_def)
  have eh2: "extract_headings ?doc2 =
      [\<lparr>level = 1, title = ''X'', raw = ''* X'', todo_state = None, content = []\<rparr>,
       \<lparr>level = 1, title = ''A'', raw = ''* A'', todo_state = None, content = ''foo''\<rparr>]"
    by (simp add: extract_headings_closed_form sl2 hx h0 h1 new_heading_def tmX tmA
        close_heading_def)
  have sel: "line_selected ''A'' ''* A''"
    by (simp add: line_selected_def h0)
  have nsel: "\<not> line_selected ''A'' ''* X''"
    by (simp add: line_selected_def hx suffix_to_prefix)
  have ln: "find_line_number 0 (splitlines ?doc) ''A'' = Some 0"
    by (simp add: sl sel)
  have ln2: "find_line_number 0 (splitlines ?doc2) ''A'' = Some 1"
    by (simp add: sl2 sel nsel)
  have en: "find_end_line (splitlines ?doc) 0 = 2"
    by (simp add: sl find_end_line_def h1 h2)
  have sb: "splitlines ''bar'' = [''bar'']"
    by (simp add: splitlines.simps is_linebreak_def)
  have sf: "splitlines ''foo'' = [''foo'']"
    by (simp add: splitlines.simps is_linebreak_def)
  have ml: "modify_lines ''f.org'' ?doc ''A'' None (Some ''bar'') None =
      Inr [''* A'', ''bar'', ''* B'']"
    by (simp add: modify_lines_def eh ln en build_heading_line_def sb) (simp add: sl)
  have ml2: "modify_lines ''f.org'' ?doc2 ''A'' (Some ''A2'') None None =
      Inr [''* X'', ''* A2'', ''foo'']"
    by (simp add: modify_lines_def eh2 ln2 build_heading_line_def sf)
      (simp add: sl2 find_end_line_def h1)
  have mt: "modify_text ''f.org'' ?doc ''A'' None (Some ''bar'') None = Inr ?W"
    by (simp add: modify_text_def ml)
  have mt2: "modify_text ''f.org'' ?doc2 ''A'' (Some ''A2'') None None = Inr ?W2"
    by (simp add: modify_text_def ml2)
  obtain msg where mh: "modify_heading ?F ''f.org'' ''A'' None (Some ''bar'') None =
      (Inr msg, ?F(''f.org'' \<mapsto> ?W))"
    by (simp add: modify_heading_def mt)
  obtain msg2 where mh2: "modify_heading ?F2 ''f.org'' ''A'' (Some ''A2'') None None =
      (Inr msg2, ?F2(''f.org'' \<mapsto> ?W2))"
    by (simp add: modify_heading_def mt2)
  have fp: "?F ''f.org'' = Some ?doc" by simp
  have fp2: "?F2 ''f.org'' = Some ?doc2" by simp
  have ne: "?doc \<noteq> []" by simp
  have ne2: "?doc2 \<noteq> []" by simp
  have lb: "is_linebreak (last ?doc)" by (simp add: is_linebreak_def)
  have lb2: "is_linebreak (last ?doc2)" by (simp add: is_linebreak_def)
  from written_text_loses_final_break [OF fp mh ne lb]
  obtain i1 target1 n1 e1 cl1 ti1 new_lines1 written1
    where "find_target 0 (extract_headings ?doc) ''A'' = Some (i1, target1)"
      and n1: "find_line_number 0 (splitlines ?doc) ''A'' = Some n1"
      and e1: "e1 = find_end_line (splitlines ?doc) n1"
      and "cl1 = splitlines (case Some ''bar'' of Some c \<Rightarrow> c | None \<Rightarrow> content target1)"
      and "ti1 = (case None of Some s \<Rightarrow> s | None \<Rightarrow> ''A'')"
      and "modify_lines ''f.org'' ?doc ''A'' None (Some ''bar'') None = Inr new_lines1"
      and "written1 = join_nl new_lines1"
      and w1: "(?F(''f.org'' \<mapsto> ?W)) ''f.org'' = Some written1"
      and imp1: "e1 < length (splitlines ?doc) \<or> (cl1 \<noteq> [] \<and> last cl1 \<noteq> []) \<or>
            (cl1 = [] \<and> trailing_breaks ti1 = 0)
              \<longrightarrow> trailing_breaks written1 < trailing_breaks ?doc \<and> written1 \<noteq> ?doc"
      and "e1 = length (splitlines ?doc)
              \<longrightarrow> trailing_breaks written1 =
                    (if \<exists>l\<in>set cl1. l \<noteq> [] then trailing_empty_lines cl1
                     else length cl1 + trailing_breaks ti1)"
    by (elim exE conjE) (rule that)
  from w1 have wr1: "written1 = ?W" by simp
  from n1 have "n1 = 0" by (simp add: ln)
  with e1 have "e1 = 2" by (simp add: en)
  then have "e1 < length (splitlines ?doc)" by (simp add: sl)
  with imp1 wr1 have r1: "trailing_breaks ?W < trailing_breaks ?doc" by simp
  from written_text_loses_final_break [OF fp2 mh2 ne2 lb2]
  obtain i2 target2 n2 e2 cl2 ti2 new_lines2 written2
    where tg2: "find_target 0 (extract_headings ?doc2) ''A'' = Some (i2, target2)"
      and n2: "find_line_number 0 (splitlines ?doc2) ''A'' = Some n2"
      and e2: "e2 = find_end_line (splitlines ?doc2) n2"
      and cl2: "cl2 = splitlines (case None of Some c \<Rightarrow> c | None \<Rightarrow> content target2)"
      and "ti2 = (case Some ''A2'' of Some s \<Rightarrow> s | None \<Rightarrow> ''A'')"
      and "modify_lines ''f.org'' ?doc2 ''A'' (Some ''A2'') None None = Inr new_lines2"
      and "written2 = join_nl new_lines2"
      and w2: "(?F2(''f.org'' \<mapsto> ?W2)) ''f.org'' = Some written2"
      and imp2: "e2 < length (splitlines ?doc2) \<or> (cl2 \<noteq> [] \<and> last cl2 \<noteq> []) \<or>
            (cl2 = [] \<and> trailing_breaks ti2 = 0)
              \<longrightarrow> trailing_breaks written2 < trailing_breaks ?doc2 \<and> written2 \<noteq> ?doc2"
      and form2: "e2 = length (splitlines ?doc2)
              \<longrightarrow> trailing_breaks written2 =
                    (if \<exists>l\<in>set cl2. l \<noteq> [] then trailing_empty_lines cl2
                     else length cl2 + trailing_breaks ti2)"
    by (elim exE conjE) (rule that)
  from tg2 have "content target2 = ''foo''" by (auto simp: eh2)
  with cl2 have c2: "cl2 = [''foo'']" by (simp add: sf)
  from w2 have wr2: "written2 = ?W2" by simp
  from n2 have "n2 = 1" by (simp add: ln2)
  with e2 have "e2 = length (splitlines ?doc2)" by (simp add: sl2 find_end_line_def h1)
  with form2 c2 wr2 have r3: "trailing_breaks ?W2 = trailing_empty_lines [''foo'']" by simp
  from imp2 c2 wr2 have r2: "trailing_breaks ?W2 < trailing_breaks ?doc2" by simp
  have s1: "snd (modify_heading ?F ''f.org'' ''A'' None (Some ''bar'') None) ''f.org'' = Some ?W"
    by (simp add: mh)
  have s2: "snd (modify_heading ?F2 ''f.org'' ''A'' (Some ''A2'') None None) ''f.org'' = Some ?W2"
    by (simp add: mh2)
  show ?thesis by (rule conjI [OF s1 conjI [OF r1 conjI [OF s2 conjI [OF r2 r3]]]])
qed

text \<open>
  The claim as stated fails when the replaced block runs to the end of the text and the
  new content itself ends with an empty line. The text \<open>* X\<close>, \<open>* A\<close>, \<open>foo\<close> with a final
  line break, modified at \<open>A\<close> with the content \<open>foo\<close> followed by two line breaks, is
  written back exactly as it was: the first heading, outside the replaced block, and the
  final line break are all in place.
\<close>

theorem written_text_counterexample:
  "is_linebreak (last ''* X\<newline>* A\<newline>foo\<newline>'') \<and>
   modify_text ''f.org'' ''* X\<newline>* A\<newline>foo\<newline>'' ''A'' None (Some ''foo\<newline>\<newline>'') None =
     Inr ''* X\<newline>* A\<newline>foo\<newline>'' \<and>
   snd (modify_heading [''f.org'' \<mapsto> ''* X\<newline>* A\<newline>foo\<newline>''] ''f.org'' ''A'' None
          (Some ''foo\<newline>\<newline>'') None) ''f.org'' = Some ''* X\<newline>* A\<newline>foo\<newline>''"
proof -
  let ?doc = "''* X\<newline>* A\<newline>foo\<newline>''"
  have sl: "splitlines ?doc = [''* X'', ''* A'', ''foo'']"
    by (simp add: splitlines.simps is_linebreak_def)
  have hx: "heading_match ''* X'' = Some (''*'', ''X'')"
    by (simp add: heading_match_def is_space_def)
  have h0: "heading_match ''* A'' = Some (''*'', ''A'')"
    by (simp add: heading_match_def is_space_def)
  have h1: "heading_match ''foo'' = None" by (simp add: heading_match_def)
  have tmX: "todo_match ''X'' = None" by (simp add: todo_match_def todo_tokens_def)
  have tmA: "todo_match ''A'' = None" by (simp add: todo_match_def todo_tokens_def)
  have eh: "extract_headings ?doc =
      [\<lparr>level = 1, title = ''X'', raw = ''* X'', todo_state = None, content = []\<rparr>,
       \<lparr>level = 1, title = ''A'', raw = ''* A'', todo_state = None, content = ''foo''\<rparr>]"
    by (simp add: extract_headings_closed_form sl hx h0 h1 new_heading_def tmX tmA
        close_heading_def)
  have nsel: "\<not> line_selected ''A'' ''* X''"
    by (simp add: line_selected_def hx suffix_to_prefix)
  have sel: "line_selected ''A'' ''* A''"
    by (simp add: line_selected_def h0)
  have ln: "find_line_number 0 (splitlines ?doc) ''A'' = Some 1"
    by (simp add: sl sel nsel)
  have sb: "splitlines ''foo\<newline>\<newline>'' = [''foo'', []]"
    by (simp add: splitlines.simps is_linebreak_def)
  have ml: "modify_lines ''f.org'' ?doc ''A'' None (Some ''foo\<newline>\<newline>'') None =
      Inr [''* X'', ''* A'', ''foo'', []]"
    by (simp add: modify_lines_def eh ln build_heading_line_def sb)
      (simp add: sl find_end_line_def h1)
  have mt: "modify_text ''f.org'' ?doc ''A'' None (Some ''foo\<newline>\<newline>'') None = Inr ?doc"
    by (simp add: modify_text_def ml)
  have lb: "is_linebreak (last ?doc)" by (simp add: is_linebreak_def)
  have mh: "snd (modify_heading [''f.org'' \<mapsto> ?doc] ''f.org'' ''A'' None
          (Some ''foo\<newline>\<newline>'') None) ''f.org'' = Some ?doc"
    by (simp add: modify_heading_def mt)
  from lb mt mh show ?thesis by blast
qed

end
